theory Spec2Isabelle
  imports Complex_Main "HOL-Library.Word"
begin

unbundle bit_operations_syntax

section \<open>Bit-width arithmetic\<close>

text \<open>
  Source: \<^verbatim>\<open>mlx/backend/cpu/quantized.cpp\<close>, \<^verbatim>\<open>get_pack_factor\<close> and
  \<^verbatim>\<open>get_bytes_per_pack\<close>.  The bit width is never negative where these
  functions are used, so it is a natural number here; \<^verbatim>\<open>wsize\<close> defaults to 8
  in the source and is always passed explicitly in this development.
\<close>

type_synonym u8 = "8 word"
type_synonym u32 = "32 word"
type_synonym u64 = "64 word"

definition get_pack_factor :: "nat \<Rightarrow> nat \<Rightarrow> nat" where
  "get_pack_factor bits wsize =
     (if bits = 3 \<or> bits = 5 then 8 else if bits = 6 then 4 else wsize div bits)"

definition get_bytes_per_pack :: "nat \<Rightarrow> nat \<Rightarrow> nat" where
  "get_bytes_per_pack bits wsize =
     (let power_of_2_bits = (bits AND (bits - 1) = 0)
      in if power_of_2_bits then wsize div 8 else if bits = 5 then 5 else 3)"

section \<open>Bit codec: decoding\<close>

text \<open>
  \<^verbatim>\<open>extract_bits<T, bits>(w_in, w_out)\<close> for the widths 3, 5 and 6.  The
  argument \<open>w_in\<close> is the byte buffer seen from the pointer \<^verbatim>\<open>w_in\<close>
  (so \<^verbatim>\<open>w_in[i]\<close> is \<open>w_in ! i\<close>); the result is the list of the values
  written to \<^verbatim>\<open>w_out[0]\<close>, \<^verbatim>\<open>w_out[1]\<close>, ... in this order.  A byte is
  promoted to \<^verbatim>\<open>int\<close> before \<^verbatim>\<open>&\<close>, \<^verbatim>\<open>>>\<close>, \<^verbatim>\<open><<\<close> and
  \<^verbatim>\<open>+\<close>; the promoted values are non-negative and below \<open>2 ^ 12\<close>, so they
  are natural numbers here.  \<open>extract_bits_3\<close>, \<open>extract_bits_5\<close> and
  \<open>extract_bits_6\<close> are the three branches, as functions of the promoted bytes
  \<^verbatim>\<open>w_in[0]\<close>, \<^verbatim>\<open>w_in[1]\<close>, ...; \<open>extract_bits_int\<close> gives the integer
  expressions under the \<^verbatim>\<open>static_cast<T>\<close>, and \<open>cast\<close> is that cast.  The source
  has a \<^verbatim>\<open>static_assert\<close> for the three widths; for any other width no
  branch of the source writes anything.
\<close>

definition extract_bits_3 :: "nat \<Rightarrow> nat \<Rightarrow> nat \<Rightarrow> nat list" where
  "extract_bits_3 b0 b1 b2 =
     [b0 AND 0x7,
      drop_bit 3 (b0 AND 0x38),
      drop_bit 6 (b0 AND 0xc0) + push_bit 2 (b1 AND 0x1),
      drop_bit 1 (b1 AND 0xe),
      drop_bit 4 (b1 AND 0x70),
      drop_bit 7 (b1 AND 0x80) + push_bit 1 (b2 AND 0x3),
      drop_bit 2 (b2 AND 0x1c),
      drop_bit 5 (b2 AND 0xe0)]"

definition extract_bits_5 :: "nat \<Rightarrow> nat \<Rightarrow> nat \<Rightarrow> nat \<Rightarrow> nat \<Rightarrow> nat list" where
  "extract_bits_5 b0 b1 b2 b3 b4 =
     [b0 AND 0x1f,
      drop_bit 5 (b0 AND 0xe0) + push_bit 3 (b1 AND 0x3),
      drop_bit 2 (b1 AND 0x7c),
      drop_bit 7 (b1 AND 0x80) + push_bit 1 (b2 AND 0xf),
      drop_bit 4 (b2 AND 0xf0) + push_bit 4 (b3 AND 0x1),
      drop_bit 1 (b3 AND 0x3e),
      drop_bit 6 (b3 AND 0xc0) + push_bit 2 (b4 AND 0x7),
      drop_bit 3 (b4 AND 0xf8)]"

definition extract_bits_6 :: "nat \<Rightarrow> nat \<Rightarrow> nat \<Rightarrow> nat list" where
  "extract_bits_6 b0 b1 b2 =
     [b0 AND 0x3f,
      (drop_bit 6 b0 AND 0x03) + push_bit 2 (b1 AND 0x0f),
      (drop_bit 4 b1 AND 0x0f) + push_bit 4 (b2 AND 0x03),
      drop_bit 2 b2 AND 0x3f]"

definition extract_bits_int :: "nat \<Rightarrow> u8 list \<Rightarrow> nat list" where
  "extract_bits_int bits w_in =
     (if bits = 3 then
        extract_bits_3 (unat (w_in ! 0)) (unat (w_in ! 1)) (unat (w_in ! 2))
      else if bits = 5 then
        extract_bits_5 (unat (w_in ! 0)) (unat (w_in ! 1)) (unat (w_in ! 2))
          (unat (w_in ! 3)) (unat (w_in ! 4))
      else if bits = 6 then
        extract_bits_6 (unat (w_in ! 0)) (unat (w_in ! 1)) (unat (w_in ! 2))
      else [])"

definition extract_bits :: "(nat \<Rightarrow> 'a) \<Rightarrow> nat \<Rightarrow> u8 list \<Rightarrow> 'a list" where
  "extract_bits cast bits w_in = map cast (extract_bits_int bits w_in)"


text \<open>
  The decode loop of the widths 2, 4 and 8 in \<^verbatim>\<open>_qmm\<close> and \<^verbatim>\<open>_qmm_t\<close>:
  \<^verbatim>\<open>
  uint8_t wi = *w_local++;
  for (int p = 0; p < pack_factor; p++) {
    <use of wi & bitmask>;
    if (bits != 8) { wi >>= bits; }
  }
  \<close>
  with \<^verbatim>\<open>bitmask = (1 << bits) - 1\<close>.  What an iteration does with the masked
  value is the parameter \<open>use\<close> (it receives \<open>p\<close>, the accumulated state and
  the promoted value \<^verbatim>\<open>wi & bitmask\<close>); the kernels accumulate a product,
  \<open>unpack_byte\<close> collects the values.
\<close>

definition shift_mask_loop ::
  "nat \<Rightarrow> (nat \<Rightarrow> 's \<Rightarrow> nat \<Rightarrow> 's) \<Rightarrow> u8 \<Rightarrow> 's \<Rightarrow> 's" where
  "shift_mask_loop bits use wi0 s0 =
     snd (fold (\<lambda>p (wi, s).
                  (if bits \<noteq> 8 then drop_bit bits wi else wi,
                   use p s (unat wi AND (2 ^ bits - 1))))
               [0..<get_pack_factor bits 8] (wi0, s0))"

definition unpack_byte :: "nat \<Rightarrow> u8 \<Rightarrow> nat list" where
  "unpack_byte bits wi = shift_mask_loop bits (\<lambda>p vs v. vs @ [v]) wi []"

section \<open>Bit codec: encoding\<close>

text \<open>
  The packing loop of \<^verbatim>\<open>quantize\<close>:
  \<^verbatim>\<open>
  uint64_t out_el = 0;
  for (int k = 0; k < el_per_int; ++k) {
    ... out_el |= static_cast<uint64_t>(w_el) << (k * bits);
  }
  \<close>
  where \<open>code k\<close> is the value \<^verbatim>\<open>static_cast<uint64_t>(w_el)\<close> of iteration
  \<open>k\<close>.
\<close>

definition encode_el :: "nat \<Rightarrow> nat \<Rightarrow> (nat \<Rightarrow> u64) \<Rightarrow> u64" where
  "encode_el bits el_per_int code =
     fold (\<lambda>k out_el. out_el OR push_bit (k * bits) (code k)) [0..<el_per_int] 0"

text \<open>
  \<^verbatim>\<open>is_power_of_2\<close> is declared in \<^verbatim>\<open>mlx/utils.h\<close>, which is not part of
  the sources at hand.

  Modelled from the spec: \<^verbatim>\<open>is_power_of_2\<close> of \<^verbatim>\<open>mlx/utils.h\<close>; the spec
  calls 2, 4 and 8 the power-of-two widths and 3, 5 and 6 the others, which is
  the usual test below.
\<close>

definition is_power_of_2 :: "nat \<Rightarrow> bool" where
  "is_power_of_2 n = (n AND (n - 1) = 0 \<and> n \<noteq> 0)"

text \<open>
  The store of one packed element at the end of the \<open>j\<close> loop of
  \<^verbatim>\<open>quantize\<close>.  The element type \<^verbatim>\<open>U\<close> of \<^verbatim>\<open>out\<close> is a word type
  (\<^verbatim>\<open>uint32_t\<close> for the power-of-two widths, \<^verbatim>\<open>uint8_t\<close> otherwise, as
  \<^verbatim>\<open>AffineQuantize::eval_cpu\<close> instantiates it); the assignment truncates.
\<close>

definition store_el ::
  "nat \<Rightarrow> nat \<Rightarrow> 'u::len word list \<Rightarrow> nat \<Rightarrow> nat \<Rightarrow> u64 \<Rightarrow> 'u word list" where
  "store_el bits bytes_per_pack out out_idx j out_el =
     (if is_power_of_2 bits then
        out[out_idx + j := ucast out_el]
      else if bits = 5 then
        out[out_idx + bytes_per_pack * j := ucast (out_el AND 0xff),
            out_idx + bytes_per_pack * j + 1 := ucast (drop_bit 8 (out_el AND 0xff00)),
            out_idx + bytes_per_pack * j + 2 := ucast (drop_bit 16 (out_el AND 0xff0000)),
            out_idx + bytes_per_pack * j + 3 := ucast (drop_bit 24 (out_el AND 0xff000000)),
            out_idx + bytes_per_pack * j + 4 := ucast (drop_bit 32 (out_el AND 0xff00000000))]
      else
        out[out_idx + bytes_per_pack * j := ucast (out_el AND 0xff),
            out_idx + bytes_per_pack * j + 1 := ucast (drop_bit 8 (out_el AND 0xff00)),
            out_idx + bytes_per_pack * j + 2 := ucast (drop_bit 16 (out_el AND 0xff0000))])"

text \<open>
  The kernels read the packed weights through \<^verbatim>\<open>(const uint8_t*)w\<close>.  For
  the power-of-two widths the quantizer has stored 32-bit words; their bytes
  are taken in little-endian order, the byte order of the targets of the
  library.
\<close>

definition le_bytes :: "u32 \<Rightarrow> u8 list" where
  "le_bytes v = [ucast v, ucast (drop_bit 8 v), ucast (drop_bit 16 v), ucast (drop_bit 24 v)]"

definition bytes_of_words :: "u32 list \<Rightarrow> u8 list" where
  "bytes_of_words ws = concat (map le_bytes ws)"


text \<open>
  One packed element from end to end.  \<open>pack_codes\<close> is the encode path of
  \<^verbatim>\<open>quantize\<close> (the packing loop, then the store into a fresh buffer at
  \<^verbatim>\<open>out_idx = 0\<close>, \<^verbatim>\<open>j = 0\<close>) applied to the codes \<open>cs\<close>, with the
  stored element seen as bytes.  \<open>unpack_codes\<close> is the decode path of the
  kernels on these bytes: \<^verbatim>\<open>extract_bits\<close> for the widths 3, 5 and 6, the
  shift-and-mask loop on one byte after the other for the widths 2, 4 and 8.
\<close>

definition pack_codes :: "nat \<Rightarrow> nat list \<Rightarrow> u8 list" where
  "pack_codes bits cs =
     (let el_per_int = get_pack_factor bits 32;
          bytes_per_pack = get_bytes_per_pack bits 8;
          out_el = encode_el bits el_per_int (\<lambda>k. of_nat (cs ! k))
      in if is_power_of_2 bits
         then bytes_of_words (store_el bits bytes_per_pack [0] 0 0 out_el)
         else store_el bits bytes_per_pack (replicate bytes_per_pack 0) 0 0 out_el)"

definition unpack_codes :: "nat \<Rightarrow> u8 list \<Rightarrow> nat list" where
  "unpack_codes bits bytes =
     (if bits = 3 \<or> bits = 5 \<or> bits = 6 then extract_bits_int bits bytes
      else concat (map (unpack_byte bits) bytes))"

section \<open>Group-wise affine quantizer\<close>

text \<open>
  \<^verbatim>\<open>quantize<T, U>\<close> computes in \<^verbatim>\<open>float\<close>.  The floating-point numbers
  are idealised as real numbers here: the rounding of each single operation,
  overflow and NaN are not modelled.  The conversions between the element type
  \<^verbatim>\<open>T\<close> and \<^verbatim>\<open>float\<close> are the parameters \<open>to_float\<close> and \<open>of_float\<close>
  of \<open>quantize\<close>.

  \<^verbatim>\<open>std::rint\<close> in the default rounding mode rounds to the nearest integer,
  ties to the even one.
\<close>

definition rint :: "real \<Rightarrow> real" where
  "rint x =
     (let f = \<lfloor>x\<rfloor>; d = x - of_int f
      in if d < 1 / 2 then of_int f
         else if 1 / 2 < d then of_int (f + 1)
         else if even f then of_int f else of_int (f + 1))"

text \<open>
  The search for the extrema of a group starts from
  \<^verbatim>\<open>w_min = infinity\<close> and \<^verbatim>\<open>w_max = -infinity\<close>; \<open>ext\<close> adds the two
  infinities to the reals, and \<open>ext_max\<close>, \<open>ext_min\<close> are \<^verbatim>\<open>std::max\<close> and
  \<^verbatim>\<open>std::min\<close> of an accumulated value and a finite one.
\<close>

datatype ext = MInf | Fin real | PInf

fun ext_max :: "ext \<Rightarrow> real \<Rightarrow> ext" where
  "ext_max MInf v = Fin v"
| "ext_max (Fin a) v = Fin (max a v)"
| "ext_max PInf v = PInf"

fun ext_min :: "ext \<Rightarrow> real \<Rightarrow> ext" where
  "ext_min PInf v = Fin v"
| "ext_min (Fin a) v = Fin (min a v)"
| "ext_min MInf v = MInf"

text \<open>
  \<^verbatim>\<open>
  for (int j = 0; j < group_size; ++j) {
    w_max = std::max(w_max, (float)w[w_idx + j]);
    w_min = std::min(w_min, (float)w[w_idx + j]);
  }
  \<close>
  The result is the pair \<open>(w_min, w_max)\<close>.
\<close>

definition group_min_max :: "('t \<Rightarrow> real) \<Rightarrow> 't list \<Rightarrow> nat \<Rightarrow> nat \<Rightarrow> ext \<times> ext" where
  "group_min_max to_float w w_idx group_size =
     fold (\<lambda>j (w_min, w_max).
             (ext_min w_min (to_float (w ! (w_idx + j))),
              ext_max w_max (to_float (w ! (w_idx + j)))))
          [0..<group_size] (PInf, MInf)"

text \<open>
  Scale and bias of a group from its extrema (\<^verbatim>\<open>mask\<close>, \<^verbatim>\<open>scale\<close>,
  \<^verbatim>\<open>edge\<close>, \<^verbatim>\<open>q0\<close>, \<^verbatim>\<open>bias\<close> of the source); the result is the pair
  \<open>(scale, bias)\<close>.
\<close>

definition group_params :: "real \<Rightarrow> real \<Rightarrow> real \<Rightarrow> real \<Rightarrow> real \<times> real" where
  "group_params n_bins eps w_min w_max =
     (let mask = \<bar>w_min\<bar> > \<bar>w_max\<bar>;
          scale0 = max ((w_max - w_min) / n_bins) eps;
          scale = (if mask then scale0 else - scale0);
          edge = (if mask then w_min else w_max);
          q0 = rint (edge / scale)
      in if q0 \<noteq> 0 then (edge / q0, edge) else (scale, 0))"

text \<open>
  The code of one element:
  \<^verbatim>\<open>
  w_el = std::rint((w_el - bias) / scale);
  w_el = std::min(std::max(w_el, 0.0f), n_bins);
  \<close>
  and its conversion \<^verbatim>\<open>static_cast<uint64_t>(w_el)\<close>, of a value that is never
  negative.
\<close>

definition quantize_el :: "real \<Rightarrow> real \<Rightarrow> real \<Rightarrow> real \<Rightarrow> real" where
  "quantize_el n_bins scale bias w_el = min (max (rint ((w_el - bias) / scale)) 0) n_bins"

definition to_u64 :: "real \<Rightarrow> u64" where
  "to_u64 r = of_nat (nat \<lfloor>r\<rfloor>)"

text \<open>
  The body of the loop over the groups, for group \<open>i\<close>, on the three output
  buffers.  The extrema of a group are finite as soon as the group has an
  element; otherwise the result is \<open>None\<close>.
\<close>

definition quantize_group ::
  "('t \<Rightarrow> real) \<Rightarrow> (real \<Rightarrow> 't) \<Rightarrow> 't list \<Rightarrow> nat \<Rightarrow> nat \<Rightarrow> nat \<Rightarrow>
   'u::len word list \<times> 't list \<times> 't list \<Rightarrow> ('u word list \<times> 't list \<times> 't list) option" where
  "quantize_group to_float of_float w bits group_size i =
     (\<lambda>(out, scales, biases).
        let n_bins = real (2 ^ bits - 1);
            eps = 1 / 10 ^ 7;
            el_per_int = get_pack_factor bits 32;
            bytes_per_pack = get_bytes_per_pack bits 8;
            int_per_group = group_size * bytes_per_pack div el_per_int;
            w_idx = i * group_size
        in case group_min_max to_float w w_idx group_size of
             (Fin w_min, Fin w_max) \<Rightarrow>
               let (scale, bias) = group_params n_bins eps w_min w_max;
                   out_idx = i * int_per_group;
                   out' = fold (\<lambda>j out.
                            store_el bits bytes_per_pack out out_idx j
                              (encode_el bits el_per_int
                                 (\<lambda>k. to_u64 (quantize_el n_bins scale bias
                                         (to_float (w ! (w_idx + j * el_per_int + k)))))))
                            [0..<int_per_group div bytes_per_pack] out
               in Some (out', scales[i := of_float scale], biases[i := of_float bias])
           | _ \<Rightarrow> None)"

text \<open>
  \<^verbatim>\<open>quantize<T, U>(w, out, scales, biases, bits, group_size, w_size)\<close>.
  The divisions \<^verbatim>\<open>w_size / group_size\<close> and
  \<^verbatim>\<open>group_size * bytes_per_pack / el_per_int\<close> are undefined in the source
  when the divisor is 0; the result is \<open>None\<close> then.
\<close>

definition quantize ::
  "('t \<Rightarrow> real) \<Rightarrow> (real \<Rightarrow> 't) \<Rightarrow> 't list \<Rightarrow> 'u::len word list \<Rightarrow> 't list \<Rightarrow> 't list \<Rightarrow>
   nat \<Rightarrow> nat \<Rightarrow> nat \<Rightarrow> ('u word list \<times> 't list \<times> 't list) option" where
  "quantize to_float of_float w out scales biases bits group_size w_size =
     (if get_pack_factor bits 32 = 0 \<or> group_size = 0 then None
      else let n_groups = w_size div group_size
           in fold (\<lambda>i st. Option.bind st (quantize_group to_float of_float w bits group_size i))
                [0..<n_groups] (Some (out, scales, biases)))"

section \<open>Dequantize-multiply kernels\<close>

text \<open>
  The kernels are templates over the element type \<^verbatim>\<open>T\<close>, the bit width and
  the group size.  The element type is a type \<open>'a\<close> with a zero, an addition
  and a multiplication of which nothing is assumed, so that the order of the
  operations of the source is kept; \<open>cast\<close> is \<^verbatim>\<open>static_cast<T>\<close> of a
  decoded code.  A pointer into a buffer is the list of the elements from the
  pointer on (\<open>drop\<close> moves it) or an index into such a list; the kernels are
  given an output buffer and return it updated.  The dimensions \<^verbatim>\<open>M\<close>,
  \<^verbatim>\<open>N\<close>, \<^verbatim>\<open>K\<close> are never negative and are natural numbers.

  A loop \<^verbatim>\<open>for (int i = 0; i < n; i += step)\<close> whose body does not read
  \<open>i\<close>.  Every step of the source is a positive compile-time constant (a
  group size 32, 64 or 128, or a number of packs that a \<^verbatim>\<open>static_assert\<close>
  keeps positive), so the test \<open>0 < step\<close> never fails there.
\<close>

function for_step :: "nat \<Rightarrow> nat \<Rightarrow> nat \<Rightarrow> ('s \<Rightarrow> 's) \<Rightarrow> 's \<Rightarrow> 's" where
  "for_step step n i body s =
     (if i < n \<and> 0 < step then for_step step n (i + step) body (body s) else s)"
  by pat_completeness auto
termination
  by (relation "measure (\<lambda>(step, n, i, body, s). n - i)") auto

declare for_step.simps [simp del]

subsection \<open>The transposed kernel \<^verbatim>\<open>_qmm_t\<close>\<close>

text \<open>
  One pack of the innermost loops of \<^verbatim>\<open>_qmm_t\<close>, on the state
  \<open>(sum, x_local, w_local)\<close>; \<open>w\<close> is the weight buffer as bytes.
\<close>

definition qmm_t_pack ::
  "(nat \<Rightarrow> 'a::{zero,plus,times}) \<Rightarrow> nat \<Rightarrow> 'a list \<Rightarrow> u8 list \<Rightarrow> 'a \<Rightarrow> 'a \<Rightarrow>
   'a \<times> nat \<times> nat \<Rightarrow> 'a \<times> nat \<times> nat" where
  "qmm_t_pack cast bits x w scale bias =
     (\<lambda>(sum, x_local, w_local).
        let pack_factor = get_pack_factor bits 8;
            bytes_per_pack = get_bytes_per_pack bits 8
        in if bits = 3 \<or> bits = 5 \<or> bits = 6 then
             let wl = extract_bits cast bits (drop w_local w);
                 sum' = fold (\<lambda>p sum. sum + x ! (x_local + p) * (scale * wl ! p + bias))
                          [0..<pack_factor] sum
             in (sum', x_local + pack_factor, w_local + bytes_per_pack)
           else
             let wi = w ! w_local;
                 (sum', x_local') =
                   shift_mask_loop bits
                     (\<lambda>p (sum, x_local) v.
                        (sum + x ! x_local * (scale * cast v + bias), x_local + 1))
                     wi (sum, x_local)
             in (sum', x_local', w_local + 1))"

text \<open>
  The body of the loop over the groups of a row of weights, on the state
  \<open>(sum, x_local, w_local, scales_local, biases_local)\<close>.
\<close>

definition qmm_t_group ::
  "(nat \<Rightarrow> 'a::{zero,plus,times}) \<Rightarrow> nat \<Rightarrow> nat \<Rightarrow> 'a list \<Rightarrow> u8 list \<Rightarrow> 'a list \<Rightarrow> 'a list \<Rightarrow>
   'a \<times> nat \<times> nat \<times> nat \<times> nat \<Rightarrow> 'a \<times> nat \<times> nat \<times> nat \<times> nat" where
  "qmm_t_group cast bits group_size x w scales biases =
     (\<lambda>(sum, x_local, w_local, scales_local, biases_local).
        let packs_in_group = group_size div get_pack_factor bits 8;
            scale = scales ! scales_local;
            bias = biases ! biases_local;
            (sum', x_local', w_local') =
              fold (\<lambda>kw. qmm_t_pack cast bits x w scale bias) [0..<packs_in_group]
                (sum, x_local, w_local)
        in (sum', x_local', w_local', scales_local + 1, biases_local + 1))"

text \<open>
  The body of the loop over \<open>n\<close>, on the state
  \<open>(result, r, w_local, scales_local, biases_local)\<close>, where \<open>r\<close> is the
  index of \<^verbatim>\<open>*result\<close> in the output buffer and \<open>x_base\<close> the index of
  \<^verbatim>\<open>x\<close> in the activations.
\<close>

definition qmm_t_col ::
  "(nat \<Rightarrow> 'a::{zero,plus,times}) \<Rightarrow> nat \<Rightarrow> nat \<Rightarrow> 'a list \<Rightarrow> u8 list \<Rightarrow> 'a list \<Rightarrow> 'a list \<Rightarrow>
   nat \<Rightarrow> nat \<Rightarrow> 'a list \<times> nat \<times> nat \<times> nat \<times> nat \<Rightarrow> 'a list \<times> nat \<times> nat \<times> nat \<times> nat" where
  "qmm_t_col cast bits group_size x w scales biases K x_base =
     (\<lambda>(result, r, w_local, scales_local, biases_local).
        let (sum, x_local, w_local', scales_local', biases_local') =
              for_step group_size K 0 (qmm_t_group cast bits group_size x w scales biases)
                (0, x_base, w_local, scales_local, biases_local)
        in (result[r := sum], r + 1, w_local', scales_local', biases_local'))"

text \<open>The body of the loop over \<open>m\<close>, on the state \<open>(result, r, x_base)\<close>.\<close>

definition qmm_t_row ::
  "(nat \<Rightarrow> 'a::{zero,plus,times}) \<Rightarrow> nat \<Rightarrow> nat \<Rightarrow> 'a list \<Rightarrow> u8 list \<Rightarrow> 'a list \<Rightarrow> 'a list \<Rightarrow>
   nat \<Rightarrow> nat \<Rightarrow> 'a list \<times> nat \<times> nat \<Rightarrow> 'a list \<times> nat \<times> nat" where
  "qmm_t_row cast bits group_size x w scales biases N K =
     (\<lambda>(result, r, x_base).
        let (result', r', w_local, scales_local, biases_local) =
              fold (\<lambda>n. qmm_t_col cast bits group_size x w scales biases K x_base) [0..<N]
                (result, r, 0, 0, 0)
        in (result', r', x_base + K))"

definition qmm_t ::
  "(nat \<Rightarrow> 'a::{zero,plus,times}) \<Rightarrow> nat \<Rightarrow> nat \<Rightarrow> 'a list \<Rightarrow> 'a list \<Rightarrow> u32 list \<Rightarrow> 'a list \<Rightarrow> 'a list \<Rightarrow>
   nat \<Rightarrow> nat \<Rightarrow> nat \<Rightarrow> 'a list" where
  "qmm_t cast bits group_size result x w scales biases M N K =
     fst (fold (\<lambda>m. qmm_t_row cast bits group_size x (bytes_of_words w) scales biases N K)
            [0..<M] (result, 0, 0))"

subsection \<open>The non-transposed kernel \<^verbatim>\<open>_qmm\<close>\<close>

text \<open>
  One pack of the innermost loops of \<^verbatim>\<open>_qmm\<close>, on the state
  \<open>(result, result_local, w_local)\<close>, where \<open>result_local\<close> is an index into
  the output buffer.
\<close>

definition qmm_pack ::
  "(nat \<Rightarrow> 'a::{zero,plus,times}) \<Rightarrow> nat \<Rightarrow> 'a \<Rightarrow> u8 list \<Rightarrow> 'a \<Rightarrow> 'a \<Rightarrow>
   'a list \<times> nat \<times> nat \<Rightarrow> 'a list \<times> nat \<times> nat" where
  "qmm_pack cast bits xi w scale bias =
     (\<lambda>(result, result_local, w_local).
        let pack_factor = get_pack_factor bits 8;
            bytes_per_pack = get_bytes_per_pack bits 8
        in if bits = 3 \<or> bits = 5 \<or> bits = 6 then
             let wl = extract_bits cast bits (drop w_local w);
                 (result', result_local') =
                   fold (\<lambda>p (result, result_local).
                           (result[result_local :=
                              result ! result_local + xi * (scale * wl ! p + bias)],
                            result_local + 1))
                     [0..<pack_factor] (result, result_local)
             in (result', result_local', w_local + bytes_per_pack)
           else
             let wi = w ! w_local;
                 (result', result_local') =
                   shift_mask_loop bits
                     (\<lambda>p (result, result_local) v.
                        (result[result_local :=
                           result ! result_local + xi * (scale * cast v + bias)],
                         result_local + 1))
                     wi (result, result_local)
             in (result', result_local', w_local + 1))"

text \<open>
  The body of the loop over the groups of a row of weights, on the state
  \<open>(result, result_local, w_local, scales_local, biases_local)\<close>.
\<close>

definition qmm_group ::
  "(nat \<Rightarrow> 'a::{zero,plus,times}) \<Rightarrow> nat \<Rightarrow> nat \<Rightarrow> 'a \<Rightarrow> u8 list \<Rightarrow> 'a list \<Rightarrow> 'a list \<Rightarrow>
   'a list \<times> nat \<times> nat \<times> nat \<times> nat \<Rightarrow> 'a list \<times> nat \<times> nat \<times> nat \<times> nat" where
  "qmm_group cast bits group_size xi w scales biases =
     (\<lambda>(result, result_local, w_local, scales_local, biases_local).
        let packs_in_group = group_size div get_pack_factor bits 8;
            scale = scales ! scales_local;
            bias = biases ! biases_local;
            (result', result_local', w_local') =
              fold (\<lambda>ng. qmm_pack cast bits xi w scale bias) [0..<packs_in_group]
                (result, result_local, w_local)
        in (result', result_local', w_local', scales_local + 1, biases_local + 1))"

text \<open>
  The body of the loop over \<open>k\<close>, on the state
  \<open>(result, x_ptr, w_local, scales_local, biases_local)\<close>, where \<open>x_ptr\<close> is
  the index of \<^verbatim>\<open>x\<close> in the activations and \<open>r\<close> the index of
  \<^verbatim>\<open>result\<close> in the output buffer.
\<close>

definition qmm_k ::
  "(nat \<Rightarrow> 'a::{zero,plus,times}) \<Rightarrow> nat \<Rightarrow> nat \<Rightarrow> 'a list \<Rightarrow> u8 list \<Rightarrow> 'a list \<Rightarrow> 'a list \<Rightarrow>
   nat \<Rightarrow> nat \<Rightarrow> 'a list \<times> nat \<times> nat \<times> nat \<times> nat \<Rightarrow> 'a list \<times> nat \<times> nat \<times> nat \<times> nat" where
  "qmm_k cast bits group_size x w scales biases N r =
     (\<lambda>(result, x_ptr, w_local, scales_local, biases_local).
        let xi = x ! x_ptr;
            (result', result_local, w_local', scales_local', biases_local') =
              for_step group_size N 0 (qmm_group cast bits group_size xi w scales biases)
                (result, r, w_local, scales_local, biases_local)
        in (result', x_ptr + 1, w_local', scales_local', biases_local'))"

text \<open>
  The body of the loop over \<open>m\<close>, on the state \<open>(result, r, x_ptr)\<close>;
  \<^verbatim>\<open>std::fill(result, result + N, 0)\<close> is the first \<open>fold\<close>.
\<close>

definition qmm_row ::
  "(nat \<Rightarrow> 'a::{zero,plus,times}) \<Rightarrow> nat \<Rightarrow> nat \<Rightarrow> 'a list \<Rightarrow> u8 list \<Rightarrow> 'a list \<Rightarrow> 'a list \<Rightarrow>
   nat \<Rightarrow> nat \<Rightarrow> 'a list \<times> nat \<times> nat \<Rightarrow> 'a list \<times> nat \<times> nat" where
  "qmm_row cast bits group_size x w scales biases N K =
     (\<lambda>(result, r, x_ptr).
        let filled = fold (\<lambda>n result. result[r + n := 0]) [0..<N] result;
            (result', x_ptr', w_local, scales_local, biases_local) =
              fold (\<lambda>k. qmm_k cast bits group_size x w scales biases N r) [0..<K]
                (filled, x_ptr, 0, 0, 0)
        in (result', r + N, x_ptr'))"

definition qmm ::
  "(nat \<Rightarrow> 'a::{zero,plus,times}) \<Rightarrow> nat \<Rightarrow> nat \<Rightarrow> 'a list \<Rightarrow> 'a list \<Rightarrow> u32 list \<Rightarrow> 'a list \<Rightarrow> 'a list \<Rightarrow>
   nat \<Rightarrow> nat \<Rightarrow> nat \<Rightarrow> 'a list" where
  "qmm cast bits group_size result x w scales biases M N K =
     fst (fold (\<lambda>m. qmm_row cast bits group_size x (bytes_of_words w) scales biases N K)
            [0..<M] (result, 0, 0))"

subsection \<open>The SIMD kernel \<^verbatim>\<open>_qmm_t_simd\<close>\<close>

text \<open>The exceptions of the source.\<close>

datatype error = Invalid_argument string | Runtime_error string

text \<open>
  A computation that may throw ends in \<open>Inr\<close> with its state or in \<open>Inl\<close>
  with the exception; \<open>try_step\<close> runs a step on a state that has not thrown
  yet.  For a kernel or a dispatch function the exception comes with the
  output buffer as it is when the exception leaves the function.
\<close>

definition try_step :: "('s \<Rightarrow> 'e + 's) \<Rightarrow> 'e + 's \<Rightarrow> 'e + 's" where
  "try_step body r = (case r of Inl e \<Rightarrow> Inl e | Inr s \<Rightarrow> body s)"

type_synonym 'a outcome = "(error \<times> 'a list) + 'a list"

text \<open>
  The vector type \<^verbatim>\<open>simd::Simd<T, S>\<close>, its operations and the width
  \<^verbatim>\<open>simd::max_size<T>\<close> are declared in \<^verbatim>\<open>mlx/backend/cpu/simd/simd.h\<close>,
  which is not part of the sources at hand.  The width is the parameter \<open>S\<close>
  of the functions below.

  Modelled from the spec: \<^verbatim>\<open>simd::Simd<T, S>\<close> of
  \<^verbatim>\<open>mlx/backend/cpu/simd/simd.h\<close> is a vector of \<open>S\<close> lanes, here a list;
  arithmetic, shifts and masks work lane by lane, a scalar operand is used in
  every lane, \<^verbatim>\<open>simd::load\<close> reads \<open>S\<close> consecutive elements.  The
  conversions between \<^verbatim>\<open>T\<close>, \<^verbatim>\<open>uint32_t\<close> and the accumulation type
  \<^verbatim>\<open>float\<close> (a type \<open>'f\<close>, again with uninterpreted arithmetic) and the
  reduction \<^verbatim>\<open>simd::sum\<close> are fields of \<open>elem_type\<close>, which collects what
  the kernels need of an element type \<^verbatim>\<open>T\<close>: these conversions,
  \<open>static_cast\<close> (\<^verbatim>\<open>static_cast<T>\<close> of a decoded code) and \<open>max_size\<close>
  (\<^verbatim>\<open>simd::max_size<T>\<close>).
\<close>

record ('a, 'f) elem_type =
  widen :: "'a \<Rightarrow> 'f"
  narrow :: "'f \<Rightarrow> 'a"
  of_u32 :: "u32 \<Rightarrow> 'f"
  simd_sum :: "'f list \<Rightarrow> 'f"
  static_cast :: "nat \<Rightarrow> 'a"
  max_size :: nat

text \<open>
  \<^verbatim>\<open>extract_bits_simd<bits, S>(w)\<close>; \<open>w\<close> is the weight buffer as 32-bit
  words, seen from the pointer.
\<close>

definition extract_bits_simd :: "nat \<Rightarrow> nat \<Rightarrow> u32 list \<Rightarrow> error + u32 list" where
  "extract_bits_simd bits S w =
     (let bitmask = 2 ^ bits - 1
      in if bits = 4 \<and> S = 8 then
           let shifts = [0, 4, 8, 12, 16, 20, 24, 28];
               wi = replicate S (w ! 0);
               wi = map2 (\<lambda>v sh. drop_bit sh v) wi shifts;
               wi = map (\<lambda>v. v AND bitmask) wi
           in Inr wi
         else if bits = 8 \<and> S = 8 then
           let shifts = [0, 8, 16, 24, 0, 8, 16, 24];
               l = replicate (S div 2) (w ! 0);
               r = replicate (S div 2) (w ! 1);
               wi = l @ r;
               wi = map2 (\<lambda>v sh. drop_bit sh v) wi shifts;
               wi = map (\<lambda>v. v AND bitmask) wi
           in Inr wi
         else Inl (Runtime_error ''Unsupported combination for simd qmm.''))"

text \<open>
  The body of the loop over \<open>kw\<close>, on the state \<open>(acc, x_local, w_local)\<close>;
  \<open>w_local\<close> counts 32-bit words.
\<close>

definition qmm_t_simd_pack ::
  "('a, 'f::{zero,plus,times}) elem_type \<Rightarrow> nat \<Rightarrow> nat \<Rightarrow> 'a list \<Rightarrow> u32 list \<Rightarrow> 'a \<Rightarrow> 'a \<Rightarrow>
   'f list \<times> nat \<times> nat \<Rightarrow> error + 'f list \<times> nat \<times> nat" where
  "qmm_t_simd_pack ops bits S x w scale bias =
     (\<lambda>(acc, x_local, w_local).
        let pack_factor = 32 div bits;
            packs_per_simd = S div pack_factor
        in case extract_bits_simd bits S (drop w_local w) of
             Inl e \<Rightarrow> Inl e
           | Inr wi \<Rightarrow>
               let wf = map (of_u32 ops) wi;
                   w_local' = w_local + packs_per_simd;
                   wf = map (\<lambda>v. v * widen ops scale) wf;
                   wf = map (\<lambda>v. v + widen ops bias) wf;
                   x_simd = map (\<lambda>i. widen ops (x ! (x_local + i))) [0..<S];
                   acc' = map2 (+) acc (map2 (*) x_simd wf)
               in Inr (acc', x_local + S, w_local'))"

text \<open>
  The body of the loop over the groups, on the state
  \<open>(acc, x_local, w_local, scales_local, biases_local)\<close>.
\<close>

definition qmm_t_simd_group ::
  "('a, 'f::{zero,plus,times}) elem_type \<Rightarrow> nat \<Rightarrow> nat \<Rightarrow> nat \<Rightarrow> 'a list \<Rightarrow> u32 list \<Rightarrow> 'a list \<Rightarrow> 'a list \<Rightarrow>
   'f list \<times> nat \<times> nat \<times> nat \<times> nat \<Rightarrow> error + 'f list \<times> nat \<times> nat \<times> nat \<times> nat" where
  "qmm_t_simd_group ops bits group_size S x w scales biases =
     (\<lambda>(acc, x_local, w_local, scales_local, biases_local).
        let pack_factor = 32 div bits;
            packs_in_group = group_size div pack_factor;
            packs_per_simd = S div pack_factor;
            scale = scales ! scales_local;
            bias = biases ! biases_local
        in case for_step packs_per_simd packs_in_group 0
                  (try_step (qmm_t_simd_pack ops bits S x w scale bias))
                  (Inr (acc, x_local, w_local)) of
             Inl e \<Rightarrow> Inl e
           | Inr (acc', x_local', w_local') \<Rightarrow>
               Inr (acc', x_local', w_local', scales_local + 1, biases_local + 1))"

text \<open>
  The body of the loop over \<open>n\<close>, on the state
  \<open>(result, r, w_local, scales_local, biases_local)\<close>.
\<close>

definition qmm_t_simd_col ::
  "('a, 'f::{zero,plus,times}) elem_type \<Rightarrow> nat \<Rightarrow> nat \<Rightarrow> nat \<Rightarrow> 'a list \<Rightarrow> u32 list \<Rightarrow> 'a list \<Rightarrow> 'a list \<Rightarrow>
   nat \<Rightarrow> nat \<Rightarrow> 'a list \<times> nat \<times> nat \<times> nat \<times> nat \<Rightarrow>
   error \<times> 'a list + 'a list \<times> nat \<times> nat \<times> nat \<times> nat" where
  "qmm_t_simd_col ops bits group_size S x w scales biases K x_base =
     (\<lambda>(result, r, w_local, scales_local, biases_local).
        case for_step group_size K 0
               (try_step (qmm_t_simd_group ops bits group_size S x w scales biases))
               (Inr (replicate S 0, x_base, w_local, scales_local, biases_local)) of
          Inl e \<Rightarrow> Inl (e, result)
        | Inr (acc, x_local, w_local', scales_local', biases_local') \<Rightarrow>
            Inr (result[r := narrow ops (simd_sum ops acc)], r + 1,
                 w_local', scales_local', biases_local'))"

text \<open>The body of the loop over \<open>m\<close>, on the state \<open>(result, r, x_base)\<close>.\<close>

definition qmm_t_simd_row ::
  "('a, 'f::{zero,plus,times}) elem_type \<Rightarrow> nat \<Rightarrow> nat \<Rightarrow> nat \<Rightarrow> 'a list \<Rightarrow> u32 list \<Rightarrow> 'a list \<Rightarrow> 'a list \<Rightarrow>
   nat \<Rightarrow> nat \<Rightarrow> 'a list \<times> nat \<times> nat \<Rightarrow> error \<times> 'a list + 'a list \<times> nat \<times> nat" where
  "qmm_t_simd_row ops bits group_size S x w scales biases N K =
     (\<lambda>(result, r, x_base).
        case fold (\<lambda>n. try_step (qmm_t_simd_col ops bits group_size S x w scales biases K x_base))
               [0..<N] (Inr (result, r, 0, 0, 0)) of
          Inl e \<Rightarrow> Inl e
        | Inr (result', r', w_local, scales_local, biases_local) \<Rightarrow>
            Inr (result', r', x_base + K))"

definition qmm_t_simd ::
  "('a, 'f::{zero,plus,times}) elem_type \<Rightarrow> nat \<Rightarrow> nat \<Rightarrow> nat \<Rightarrow> 'a list \<Rightarrow> 'a list \<Rightarrow> u32 list \<Rightarrow>
   'a list \<Rightarrow> 'a list \<Rightarrow> nat \<Rightarrow> nat \<Rightarrow> nat \<Rightarrow> 'a outcome" where
  "qmm_t_simd ops bits group_size S result x w scales biases M N K =
     (case fold (\<lambda>m. try_step (qmm_t_simd_row ops bits group_size S x w scales biases N K))
             [0..<M] (Inr (result, 0, 0)) of
        Inl e \<Rightarrow> Inl e
      | Inr (result', r, x_base) \<Rightarrow> Inr result')"

section \<open>Dispatch layer\<close>

text \<open>
  The kernel specialisations, with their template arguments \<^verbatim>\<open>bits\<close> and
  \<^verbatim>\<open>group_size\<close>.  The dispatch functions return, next to their outcome, the
  list of the specialisations they have called, in the order of the calls;
  this list is not a value of the source.
\<close>

datatype kernel_call =
    Call_qmm nat nat
  | Call_qmm_t nat nat
  | Call_qmm_t_simd nat nat

type_synonym 'a run = "kernel_call list \<times> 'a outcome"

text \<open>\<^verbatim>\<open>_qmm_dispatch_transpose<T, bits, group_size>\<close>.\<close>

definition qmm_dispatch_transpose ::
  "('a::{zero,plus,times}, 'f::{zero,plus,times}) elem_type \<Rightarrow> nat \<Rightarrow> nat \<Rightarrow>
   'a list \<Rightarrow> 'a list \<Rightarrow> u32 list \<Rightarrow> 'a list \<Rightarrow> 'a list \<Rightarrow> nat \<Rightarrow> nat \<Rightarrow> nat \<Rightarrow> bool \<Rightarrow> 'a run" where
  "qmm_dispatch_transpose T bits group_size result x w scales biases M N K transposed_w =
     (if transposed_w then
        if 32 mod bits = 0 \<and> max_size T mod (32 div bits) = 0 then
          ([Call_qmm_t_simd bits group_size],
           qmm_t_simd T bits group_size (max_size T) result x w scales biases M N K)
        else
          ([Call_qmm_t bits group_size],
           Inr (qmm_t (static_cast T) bits group_size result x w scales biases M N K))
      else
        ([Call_qmm bits group_size],
         Inr (qmm (static_cast T) bits group_size result x w scales biases M N K)))"

text \<open>
  \<^verbatim>\<open>_qmm_dispatch_group<T, bits>\<close>: the \<^verbatim>\<open>switch\<close> on the run-time
  \<^verbatim>\<open>int group_size\<close>.
\<close>

definition qmm_dispatch_group ::
  "('a::{zero,plus,times}, 'f::{zero,plus,times}) elem_type \<Rightarrow> nat \<Rightarrow>
   'a list \<Rightarrow> 'a list \<Rightarrow> u32 list \<Rightarrow> 'a list \<Rightarrow> 'a list \<Rightarrow> nat \<Rightarrow> nat \<Rightarrow> nat \<Rightarrow> int \<Rightarrow> bool \<Rightarrow> 'a run" where
  "qmm_dispatch_group T bits result x w scales biases M N K group_size transposed_w =
     (if group_size = 32 then
        qmm_dispatch_transpose T bits 32 result x w scales biases M N K transposed_w
      else if group_size = 64 then
        qmm_dispatch_transpose T bits 64 result x w scales biases M N K transposed_w
      else if group_size = 128 then
        qmm_dispatch_transpose T bits 128 result x w scales biases M N K transposed_w
      else
        ([], Inl (Invalid_argument ''Quantization group size must be 32, 64 or 128.'', result)))"

text \<open>
  \<^verbatim>\<open>_qmm_dispatch_typed<T>\<close>, the overload on pointers: the \<^verbatim>\<open>switch\<close>
  on the run-time \<^verbatim>\<open>int bits\<close>.  Its parameters are, in this order,
  \<^verbatim>\<open>result, x, w, scales, biases, M, N, K, group_size, bits, transposed_w\<close>.
\<close>

definition qmm_dispatch_typed_ptr ::
  "('a::{zero,plus,times}, 'f::{zero,plus,times}) elem_type \<Rightarrow>
   'a list \<Rightarrow> 'a list \<Rightarrow> u32 list \<Rightarrow> 'a list \<Rightarrow> 'a list \<Rightarrow> nat \<Rightarrow> nat \<Rightarrow> nat \<Rightarrow> int \<Rightarrow> int \<Rightarrow> bool \<Rightarrow> 'a run" where
  "qmm_dispatch_typed_ptr T result x w scales biases M N K group_size bits transposed_w =
     (if bits = 2 then
        qmm_dispatch_group T 2 result x w scales biases M N K group_size transposed_w
      else if bits = 3 then
        qmm_dispatch_group T 3 result x w scales biases M N K group_size transposed_w
      else if bits = 4 then
        qmm_dispatch_group T 4 result x w scales biases M N K group_size transposed_w
      else if bits = 5 then
        qmm_dispatch_group T 5 result x w scales biases M N K group_size transposed_w
      else if bits = 6 then
        qmm_dispatch_group T 6 result x w scales biases M N K group_size transposed_w
      else if bits = 8 then
        qmm_dispatch_group T 8 result x w scales biases M N K group_size transposed_w
      else
        ([], Inl (Invalid_argument ''Quantization bits must be 2, 3, 4, 6 or 8.'', result)))"

subsection \<open>Arrays\<close>

text \<open>
  The class \<^verbatim>\<open>array\<close>, the enumeration of the element types and
  \<^verbatim>\<open>elem_to_loc\<close> are declared in headers that are not part of the sources
  at hand (\<^verbatim>\<open>mlx/array.h\<close>, \<^verbatim>\<open>mlx/dtype.h\<close>, \<^verbatim>\<open>mlx/utils.h\<close>).

  Modelled from the spec: the class \<^verbatim>\<open>array\<close> of \<^verbatim>\<open>mlx/array.h\<close>, as far
  as the dispatch layer uses it: shape and stride metadata, the element type,
  the row-contiguity flag and the data buffer (a list of elements, the
  \<^verbatim>\<open>uint32_t\<close> words for the packed weights and for the indices).
  \<open>shape_at a d\<close> is \<^verbatim>\<open>a.shape(d)\<close>, where a negative \<open>d\<close> counts from the
  end; \<open>ndim\<close> and \<open>size_arr\<close> are \<^verbatim>\<open>a.ndim()\<close> and \<^verbatim>\<open>a.size()\<close>.
  \<^verbatim>\<open>elem_to_loc\<close> is a parameter of the functions that call it.
\<close>

datatype dtype =
    bool_t | uint8 | uint16 | uint32 | uint64 | int8 | int16 | int32 | int64
  | float16 | float32 | float64 | bfloat16 | complex64

record 'e array =
  shape :: "nat list"
  strides :: "nat list"
  dtype :: dtype
  row_contiguous :: bool
  data :: "'e list"

definition ndim :: "'e array \<Rightarrow> nat" where
  "ndim a = length (shape a)"

definition size_arr :: "'e array \<Rightarrow> nat" where
  "size_arr a = prod_list (shape a)"

definition shape_at :: "'e array \<Rightarrow> int \<Rightarrow> nat" where
  "shape_at a d = shape a ! nat (if d < 0 then d + int (ndim a) else d)"

subsection \<open>Dense driver\<close>

text \<open>
  A call of a dispatch function on \<^verbatim>\<open>out_ptr + off\<close>: the function gets the
  output buffer from \<open>off\<close> on, and what it leaves there is put back behind
  the first \<open>off\<close> elements.
\<close>

definition at_offset :: "nat \<Rightarrow> 'a list \<Rightarrow> ('a list \<Rightarrow> 'a run) \<Rightarrow> 'a run" where
  "at_offset off out f =
     (case f (drop off out) of
        (calls, Inl (e, view)) \<Rightarrow> (calls, Inl (e, take off out @ view))
      | (calls, Inr view) \<Rightarrow> (calls, Inr (take off out @ view)))"

text \<open>
  One more iteration of a batch loop on the list of calls and the outcome so
  far: nothing happens once an exception has been thrown.
\<close>

definition next_batch :: "('a list \<Rightarrow> 'a run) \<Rightarrow> 'a run \<Rightarrow> 'a run" where
  "next_batch f st =
     (case st of
        (calls, Inl e) \<Rightarrow> (calls, Inl e)
      | (calls, Inr out) \<Rightarrow> (case f out of (calls', r) \<Rightarrow> (calls @ calls', r)))"

text \<open>
  \<^verbatim>\<open>_qmm_dispatch_typed<T>\<close>, the overload on arrays.  Its parameters are,
  in this order, \<^verbatim>\<open>out, x, w, scales, biases, bits, group_size, transposed_w\<close>.
  The division \<^verbatim>\<open>x.size() / (K * M)\<close> is undefined in the source when
  \<open>K * M = 0\<close>; it is 0 here.
\<close>

definition qmm_dispatch_typed ::
  "('a::{zero,plus,times}, 'f::{zero,plus,times}) elem_type \<Rightarrow> (nat \<Rightarrow> nat list \<Rightarrow> nat list \<Rightarrow> nat) \<Rightarrow>
   'a array \<Rightarrow> 'a array \<Rightarrow> u32 array \<Rightarrow> 'a array \<Rightarrow> 'a array \<Rightarrow> int \<Rightarrow> int \<Rightarrow> bool \<Rightarrow> 'a run" where
  "qmm_dispatch_typed T elem_to_loc out x w scales biases bits group_size transposed_w =
     (let K = shape_at x (-1);
          M = (if ndim x > 1 then shape_at x (-2) else 1);
          N = shape_at out (-1);
          w_els = (if ndim w > 2 then shape_at w (-1) * shape_at w (-2) else 0);
          g_els = (if ndim w > 2 then shape_at scales (-1) * shape_at scales (-2) else 0);
          batch_size = size_arr x div (K * M)
      in fold (\<lambda>i. next_batch (\<lambda>out_data.
                 at_offset (i * M * N) out_data (\<lambda>result.
                   qmm_dispatch_typed_ptr T
                     result
                     (drop (elem_to_loc (i * M * K) (shape x) (strides x)) (data x))
                     (drop (elem_to_loc (i * w_els) (shape w) (strides w)) (data w))
                     (drop (elem_to_loc (i * g_els) (shape scales) (strides scales)) (data scales))
                     (drop (elem_to_loc (i * g_els) (shape biases) (strides biases)) (data biases))
                     M N K bits group_size transposed_w)))
           [0..<batch_size] ([], Inr (data out)))"

text \<open>
  \<^verbatim>\<open>_qmm_dispatch\<close>: the \<^verbatim>\<open>switch\<close> on the element type of \<open>x\<close>;
  \<open>types dt\<close> is the element type \<^verbatim>\<open>T\<close> that belongs to \<open>dt\<close>.
\<close>

definition qmm_dispatch ::
  "(dtype \<Rightarrow> ('a::{zero,plus,times}, 'f::{zero,plus,times}) elem_type) \<Rightarrow>
   (nat \<Rightarrow> nat list \<Rightarrow> nat list \<Rightarrow> nat) \<Rightarrow>
   'a array \<Rightarrow> 'a array \<Rightarrow> u32 array \<Rightarrow> 'a array \<Rightarrow> 'a array \<Rightarrow> int \<Rightarrow> int \<Rightarrow> bool \<Rightarrow> 'a run" where
  "qmm_dispatch types elem_to_loc out x w scales biases bits group_size transposed_w =
     (case dtype x of
        float32 \<Rightarrow>
          qmm_dispatch_typed (types float32) elem_to_loc out x w scales biases bits group_size transposed_w
      | float16 \<Rightarrow>
          qmm_dispatch_typed (types float16) elem_to_loc out x w scales biases bits group_size transposed_w
      | bfloat16 \<Rightarrow>
          qmm_dispatch_typed (types bfloat16) elem_to_loc out x w scales biases bits group_size transposed_w
      | _ \<Rightarrow>
          ([], Inl (Invalid_argument ''[quantized_matmul] only floating types are supported'',
                    data out)))"

subsection \<open>Gathered driver\<close>

text \<open>
  \<^verbatim>\<open>_bs_qmm_dispatch_typed<T>\<close>.  An index is read as \<^verbatim>\<open>uint32_t\<close> and
  converted to \<^verbatim>\<open>int\<close>; it is taken to be below \<open>2 ^ 31\<close>, where the
  conversion keeps its value.
\<close>

definition bs_qmm_dispatch_typed ::
  "('a::{zero,plus,times}, 'f::{zero,plus,times}) elem_type \<Rightarrow> (nat \<Rightarrow> nat list \<Rightarrow> nat list \<Rightarrow> nat) \<Rightarrow>
   'a array \<Rightarrow> 'a array \<Rightarrow> u32 array \<Rightarrow> 'a array \<Rightarrow> 'a array \<Rightarrow> u32 array \<Rightarrow> u32 array \<Rightarrow>
   int \<Rightarrow> int \<Rightarrow> bool \<Rightarrow> 'a run" where
  "bs_qmm_dispatch_typed T elem_to_loc out x w scales biases lhs_indices rhs_indices
       bits group_size transposed_w =
     (let K = shape_at x (-1);
          M = shape_at x (-2);
          N = shape_at out (-1);
          w_els = shape_at w (-1) * shape_at w (-2);
          g_els = shape_at scales (-1) * shape_at scales (-2)
      in fold (\<lambda>i. next_batch (\<lambda>out_data.
                 let x_idx = unat (data lhs_indices !
                               elem_to_loc i (shape lhs_indices) (strides lhs_indices));
                     w_idx = unat (data rhs_indices !
                               elem_to_loc i (shape rhs_indices) (strides rhs_indices))
                 in at_offset (i * M * N) out_data (\<lambda>result.
                      qmm_dispatch_typed_ptr T
                        result
                        (drop (elem_to_loc (x_idx * M * K) (shape x) (strides x)) (data x))
                        (drop (elem_to_loc (w_idx * w_els) (shape w) (strides w)) (data w))
                        (drop (elem_to_loc (w_idx * g_els) (shape scales) (strides scales)) (data scales))
                        (drop (elem_to_loc (w_idx * g_els) (shape biases) (strides biases)) (data biases))
                        M N K bits group_size transposed_w)))
           [0..<size_arr lhs_indices] ([], Inr (data out)))"

text \<open>\<^verbatim>\<open>_bs_qmm_dispatch\<close>.\<close>

definition bs_qmm_dispatch ::
  "(dtype \<Rightarrow> ('a::{zero,plus,times}, 'f::{zero,plus,times}) elem_type) \<Rightarrow>
   (nat \<Rightarrow> nat list \<Rightarrow> nat list \<Rightarrow> nat) \<Rightarrow>
   'a array \<Rightarrow> 'a array \<Rightarrow> u32 array \<Rightarrow> 'a array \<Rightarrow> 'a array \<Rightarrow> u32 array \<Rightarrow> u32 array \<Rightarrow>
   int \<Rightarrow> int \<Rightarrow> bool \<Rightarrow> 'a run" where
  "bs_qmm_dispatch types elem_to_loc out x w scales biases lhs_indices rhs_indices
       bits group_size transposed_w =
     (case dtype x of
        float32 \<Rightarrow>
          bs_qmm_dispatch_typed (types float32) elem_to_loc out x w scales biases
            lhs_indices rhs_indices bits group_size transposed_w
      | float16 \<Rightarrow>
          bs_qmm_dispatch_typed (types float16) elem_to_loc out x w scales biases
            lhs_indices rhs_indices bits group_size transposed_w
      | bfloat16 \<Rightarrow>
          bs_qmm_dispatch_typed (types bfloat16) elem_to_loc out x w scales biases
            lhs_indices rhs_indices bits group_size transposed_w
      | _ \<Rightarrow>
          ([], Inl (Invalid_argument ''[quantized_matmul] only floating types are supported'',
                    data out)))"

subsection \<open>Public entry points\<close>

text \<open>
  The primitives \<^verbatim>\<open>QuantizedMatmul\<close> and \<^verbatim>\<open>GatherQMM\<close> hold the
  configuration \<^verbatim>\<open>group_size_\<close>, \<^verbatim>\<open>bits_\<close>, \<^verbatim>\<open>transpose_\<close> (the
  fields \<open>prim_group_size\<close>, \<open>prim_bits\<close>, \<open>prim_transpose\<close>).  Their
  \<^verbatim>\<open>eval_cpu\<close> makes each input row-contiguous with \<^verbatim>\<open>copy_cpu\<close> where it
  is not (\<^verbatim>\<open>mlx/backend/cpu/copy.h\<close>, not part of the sources at hand: the
  parameters \<open>copy_a\<close> and \<open>copy_w\<close>, for the two element types; the copy is
  made into an array of the shape and the element type of the original),
  allocates the output buffer (here the buffer of \<open>out\<close>, with arbitrary
  contents) and hands the call of the dispatch function to the command
  encoder of the stream, which runs it; the task is run at once here.
\<close>

record primitive =
  prim_group_size :: int
  prim_bits :: int
  prim_transpose :: bool

definition ensure_row_contiguous :: "('e array \<Rightarrow> 'e array) \<Rightarrow> 'e array \<Rightarrow> 'e array" where
  "ensure_row_contiguous copy_cpu arr =
     (if row_contiguous arr then arr
      else (copy_cpu arr)\<lparr>shape := shape arr, dtype := dtype arr\<rparr>)"

definition QuantizedMatmul_eval_cpu ::
  "(dtype \<Rightarrow> ('a::{zero,plus,times}, 'f::{zero,plus,times}) elem_type) \<Rightarrow>
   (nat \<Rightarrow> nat list \<Rightarrow> nat list \<Rightarrow> nat) \<Rightarrow> ('a array \<Rightarrow> 'a array) \<Rightarrow> (u32 array \<Rightarrow> u32 array) \<Rightarrow>
   primitive \<Rightarrow> 'a array \<Rightarrow> u32 array \<Rightarrow> 'a array \<Rightarrow> 'a array \<Rightarrow> 'a array \<Rightarrow> 'a run" where
  "QuantizedMatmul_eval_cpu types elem_to_loc copy_a copy_w p x_pre w_pre scales_pre biases_pre out =
     (let x = ensure_row_contiguous copy_a x_pre;
          w = ensure_row_contiguous copy_w w_pre;
          scales = ensure_row_contiguous copy_a scales_pre;
          biases = ensure_row_contiguous copy_a biases_pre
      in qmm_dispatch types elem_to_loc out x w scales biases
           (prim_group_size p) (prim_bits p) (prim_transpose p))"

definition ensure_row_contiguous_last_dims :: "('e array \<Rightarrow> 'e array) \<Rightarrow> 'e array \<Rightarrow> 'e array" where
  "ensure_row_contiguous_last_dims copy_cpu arr =
     (let stride_0 = strides arr ! (ndim arr - 2);
          stride_1 = strides arr ! (ndim arr - 1)
      in if stride_0 = shape_at arr (-1) \<and> stride_1 = 1 then arr
         else (copy_cpu arr)\<lparr>shape := shape arr, dtype := dtype arr\<rparr>)"

definition GatherQMM_eval_cpu ::
  "(dtype \<Rightarrow> ('a::{zero,plus,times}, 'f::{zero,plus,times}) elem_type) \<Rightarrow>
   (nat \<Rightarrow> nat list \<Rightarrow> nat list \<Rightarrow> nat) \<Rightarrow> ('a array \<Rightarrow> 'a array) \<Rightarrow> (u32 array \<Rightarrow> u32 array) \<Rightarrow>
   primitive \<Rightarrow> 'a array \<Rightarrow> u32 array \<Rightarrow> 'a array \<Rightarrow> 'a array \<Rightarrow> u32 array \<Rightarrow> u32 array \<Rightarrow>
   'a array \<Rightarrow> 'a run" where
  "GatherQMM_eval_cpu types elem_to_loc copy_a copy_w p x_pre w_pre scales_pre biases_pre
       lhs_indices rhs_indices out =
     (let x = ensure_row_contiguous_last_dims copy_a x_pre;
          w = ensure_row_contiguous_last_dims copy_w w_pre;
          scales = ensure_row_contiguous_last_dims copy_a scales_pre;
          biases = ensure_row_contiguous_last_dims copy_a biases_pre
      in bs_qmm_dispatch types elem_to_loc out x w scales biases lhs_indices rhs_indices
           (prim_group_size p) (prim_bits p) (prim_transpose p))"

section \<open>Auxiliary notions for the statements and the proofs\<close>

text \<open>The field of \<open>n\<close> bits of \<open>X\<close> that starts at bit \<open>d\<close>.\<close>

definition fld :: "nat \<Rightarrow> nat \<Rightarrow> nat \<Rightarrow> nat" where
  "fld d n X = take_bit n (drop_bit d X)"

text \<open>
  The integer codes of the pack that starts at byte \<open>w_local\<close> of the weight
  buffer, as the kernels decode them: with \<^verbatim>\<open>extract_bits\<close> for the widths
  3, 5 and 6, with the shift-and-mask loop on the byte otherwise.
  \<open>code_at bits w pos\<close> is the code at position \<open>pos\<close> of the packed
  sequence: code number \<open>pos mod pack_factor\<close> of pack number
  \<open>pos div pack_factor\<close>.
\<close>

definition pack_vals :: "nat \<Rightarrow> u8 list \<Rightarrow> nat \<Rightarrow> nat list" where
  "pack_vals bits w w_local =
     (if bits = 3 \<or> bits = 5 \<or> bits = 6 then extract_bits_int bits (drop w_local w)
      else unpack_byte bits (w ! w_local))"

definition code_at :: "nat \<Rightarrow> u8 list \<Rightarrow> nat \<Rightarrow> nat" where
  "code_at bits w pos =
     pack_vals bits w (pos div get_pack_factor bits 8 * get_bytes_per_pack bits 8)
       ! (pos mod get_pack_factor bits 8)"

text \<open>
  The term that position \<open>t\<close> of a run of packs contributes, for a run that
  starts at byte \<open>wl\<close> and has the scale \<open>scale\<close> and the bias \<open>bias\<close>.
\<close>

definition deq :: "(nat \<Rightarrow> 'a::{zero,plus,times}) \<Rightarrow> nat \<Rightarrow> u8 list \<Rightarrow> nat \<Rightarrow> 'a \<Rightarrow> 'a \<Rightarrow> nat \<Rightarrow> 'a" where
  "deq cast bits w wl scale bias t =
     scale * cast (pack_vals bits w
        (wl + t div get_pack_factor bits 8 * get_bytes_per_pack bits 8)
          ! (t mod get_pack_factor bits 8)) + bias"

text \<open>
  The values that the two scalar kernels leave in element \<open>(m, n)\<close> of the
  output: the products are added one after the other to 0, for \<open>k\<close> from 0
  to \<open>K - 1\<close>.  The weight at position \<open>pos\<close> of the packed matrix is
  dequantized with the scale and the bias of group number \<open>pos div gs\<close>.
\<close>

definition qmm_t_val ::
  "(nat \<Rightarrow> 'a::{zero,plus,times}) \<Rightarrow> nat \<Rightarrow> nat \<Rightarrow> 'a list \<Rightarrow> u8 list \<Rightarrow> 'a list \<Rightarrow> 'a list \<Rightarrow>
   nat \<Rightarrow> nat \<Rightarrow> nat \<Rightarrow> 'a" where
  "qmm_t_val cast bits gs x w scales biases K m n =
     fold (\<lambda>k s. s + x ! (m * K + k) *
            (scales ! ((n * K + k) div gs) * cast (code_at bits w (n * K + k))
             + biases ! ((n * K + k) div gs)))
       [0..<K] 0"

definition qmm_val ::
  "(nat \<Rightarrow> 'a::{zero,plus,times}) \<Rightarrow> nat \<Rightarrow> nat \<Rightarrow> 'a list \<Rightarrow> u8 list \<Rightarrow> 'a list \<Rightarrow> 'a list \<Rightarrow>
   nat \<Rightarrow> nat \<Rightarrow> nat \<Rightarrow> nat \<Rightarrow> 'a" where
  "qmm_val cast bits gs x w scales biases N K m n =
     fold (\<lambda>k s. s + x ! (m * K + k) *
            (scales ! ((k * N + n) div gs) * cast (code_at bits w (k * N + n))
             + biases ! ((k * N + n) div gs)))
       [0..<K] 0"

text \<open>
  A loop of \<open>n\<close> steps that emit values and may throw: the values emitted
  before the loop has ended or thrown, with the exception or the final state.
  \<open>store_vals r vs result\<close> is the buffer \<open>result\<close> with the values \<open>vs\<close>
  stored from index \<open>r\<close> on.
\<close>

primrec emit_loop :: "('p \<Rightarrow> 'v list \<times> ('e + 'p)) \<Rightarrow> nat \<Rightarrow> 'p \<Rightarrow> 'v list \<times> ('e + 'p)" where
  "emit_loop step 0 p = ([], Inr p)"
| "emit_loop step (Suc n) p =
     (case emit_loop step n p of
        (vs, Inl e) \<Rightarrow> (vs, Inl e)
      | (vs, Inr p') \<Rightarrow> (case step p' of (ws, r) \<Rightarrow> (vs @ ws, r)))"

definition store_vals :: "nat \<Rightarrow> 'a list \<Rightarrow> 'a list \<Rightarrow> 'a list" where
  "store_vals r vs result = fold (\<lambda>j res. res[r + j := vs ! j]) [0..<length vs] result"

text \<open>
  The values that \<^verbatim>\<open>_qmm_t_simd\<close> computes, without the output buffer: for
  one output element from the state \<open>(w_local, scales_local, biases_local)\<close>,
  for one row of the output, and for the whole output.
\<close>

definition simd_col_val ::
  "('a, 'f::{zero,plus,times}) elem_type \<Rightarrow> nat \<Rightarrow> nat \<Rightarrow> nat \<Rightarrow> 'a list \<Rightarrow> u32 list \<Rightarrow> 'a list \<Rightarrow> 'a list \<Rightarrow>
   nat \<Rightarrow> nat \<Rightarrow> nat \<times> nat \<times> nat \<Rightarrow> 'a list \<times> (error + nat \<times> nat \<times> nat)" where
  "simd_col_val T bits gs S x w scales biases K xb =
     (\<lambda>(wl, sl, bl).
        case for_step gs K 0 (try_step (qmm_t_simd_group T bits gs S x w scales biases))
               (Inr (replicate S 0, xb, wl, sl, bl)) of
          Inl e \<Rightarrow> ([], Inl e)
        | Inr (acc, xl, wl', sl', bl') \<Rightarrow> ([narrow T (simd_sum T acc)], Inr (wl', sl', bl')))"

definition simd_row_vals ::
  "('a, 'f::{zero,plus,times}) elem_type \<Rightarrow> nat \<Rightarrow> nat \<Rightarrow> nat \<Rightarrow> 'a list \<Rightarrow> u32 list \<Rightarrow> 'a list \<Rightarrow> 'a list \<Rightarrow>
   nat \<Rightarrow> nat \<Rightarrow> nat \<Rightarrow> 'a list \<times> (error + nat)" where
  "simd_row_vals T bits gs S x w scales biases N K xb =
     (case emit_loop (simd_col_val T bits gs S x w scales biases K xb) N (0, 0, 0) of
        (vs, Inl e) \<Rightarrow> (vs, Inl e)
      | (vs, Inr p) \<Rightarrow> (vs, Inr (xb + K)))"

definition simd_vals ::
  "('a, 'f::{zero,plus,times}) elem_type \<Rightarrow> nat \<Rightarrow> nat \<Rightarrow> nat \<Rightarrow> 'a list \<Rightarrow> u32 list \<Rightarrow> 'a list \<Rightarrow> 'a list \<Rightarrow>
   nat \<Rightarrow> nat \<Rightarrow> nat \<Rightarrow> 'a list \<times> (error + nat)" where
  "simd_vals T bits gs S x w scales biases M N K =
     emit_loop (simd_row_vals T bits gs S x w scales biases N K) M 0"

section \<open>Properties of the bit codec\<close>

subsection \<open>Range of the decoded values\<close>

lemma and_nat_le2: "(a::nat) AND m \<le> m"
proof -
  have "int (a AND m) \<le> int m"
    by (simp add: of_nat_and_eq AND_upper2)
  then show ?thesis by simp
qed

lemma shr_and_le: "m div 2 ^ k \<le> c \<Longrightarrow> drop_bit k ((a::nat) AND m) \<le> c"
  using and_nat_le2[of a m] by (metis div_le_mono drop_bit_eq_div le_trans)

lemma shl_and_le: "m * 2 ^ k \<le> c \<Longrightarrow> push_bit k ((a::nat) AND m) \<le> c"
  using and_nat_le2[of a m] by (metis mult_le_mono1 push_bit_eq_mult le_trans)

lemma and_le_c: "m \<le> c \<Longrightarrow> (a::nat) AND m \<le> c"
  using and_nat_le2[of a m] by simp

lemma shr_shl_sum_le:
  "m1 div 2 ^ k1 + m2 * 2 ^ k2 \<le> c \<Longrightarrow>
   drop_bit k1 ((a::nat) AND m1) + push_bit k2 (b AND m2) \<le> c"
  using shr_and_le[of m1 k1 "m1 div 2 ^ k1" a] shl_and_le[of m2 k2 "m2 * 2 ^ k2" b]
  by linarith

lemma and_shl_sum_le:
  "m1 + m2 * 2 ^ k2 \<le> c \<Longrightarrow> ((a::nat) AND m1) + push_bit k2 (b AND m2) \<le> c"
  using and_nat_le2[of a m1] shl_and_le[of m2 k2 "m2 * 2 ^ k2" b]
  by linarith

lemma ball_ConsI: "P x \<Longrightarrow> \<forall>v\<in>set xs. P v \<Longrightarrow> \<forall>v\<in>set (x # xs). P v"
  by simp

lemma ball_NilI: "\<forall>v\<in>set []. P v"
  by simp

lemmas range_intros = ball_ConsI ball_NilI shr_shl_sum_le and_shl_sum_le shr_and_le and_le_c

lemma extract_bits_3_range: "\<forall>v \<in> set (extract_bits_3 b0 b1 b2). v \<le> 7"
  unfolding extract_bits_3_def by (intro range_intros; simp)

lemma extract_bits_5_range: "\<forall>v \<in> set (extract_bits_5 b0 b1 b2 b3 b4). v \<le> 31"
  unfolding extract_bits_5_def by (intro range_intros; simp)

lemma extract_bits_6_range: "\<forall>v \<in> set (extract_bits_6 b0 b1 b2). v \<le> 63"
  unfolding extract_bits_6_def by (intro range_intros; simp)

lemma length_extract_bits_int:
  "bits = 3 \<or> bits = 5 \<or> bits = 6 \<Longrightarrow>
   length (extract_bits_int bits w_in) = get_pack_factor bits 8"
  by (auto simp: extract_bits_int_def get_pack_factor_def extract_bits_3_def
      extract_bits_5_def extract_bits_6_def)

text \<open>
  Claim C9.  For each of the widths 3, 5 and 6 and for arbitrary input bytes,
  \<^verbatim>\<open>extract_bits\<close> writes exactly \<open>pack_factor\<close> values (the casts of the
  integers of \<open>extract_bits_int\<close>), and each of these integers lies between 0
  and \<open>2 ^ bits - 1\<close>.
\<close>

theorem extract_bits_range:
  assumes "bits = 3 \<or> bits = 5 \<or> bits = 6"
  shows "length (extract_bits cast bits w_in) = get_pack_factor bits 8 \<and>
         extract_bits cast bits w_in = map cast (extract_bits_int bits w_in) \<and>
         (\<forall>v \<in> set (extract_bits_int bits w_in). 0 \<le> v \<and> v \<le> 2 ^ bits - 1)"
proof -
  have "\<forall>v \<in> set (extract_bits_int bits w_in). v \<le> 2 ^ bits - 1"
    using assms extract_bits_3_range extract_bits_5_range extract_bits_6_range
    by (auto simp: extract_bits_int_def)
  then show ?thesis
    using length_extract_bits_int[OF assms] by (simp add: extract_bits_def)
qed

theorem extract_bits_range_witness:
  "length (extract_bits int 5 [0xff, 0x00, 0xa5, 0x3c, 0x81]) = 8 \<and>
   list_all (\<lambda>v. v \<le> 31) (extract_bits_int 5 [0xff, 0x00, 0xa5, 0x3c, 0x81])"
  using extract_bits_range[of 5 int "[0xff, 0x00, 0xa5, 0x3c, 0x81]"]
  by (simp add: get_pack_factor_def list_all_iff extract_bits_def)

subsection \<open>Decoding in terms of bit fields\<close>

lemma bit_fld: "bit (fld d n X) i \<longleftrightarrow> i < n \<and> bit X (d + i)"
  by (simp add: fld_def bit_simps)

lemma and_mask_shape:
  "(a::nat) AND push_bit k (mask m) = push_bit k (take_bit m (drop_bit k a))"
  by (rule bit_eqI) (auto simp: bit_simps)

lemma fld_fld: "fld k m (fld d n X) = fld (d + k) (min m (n - k)) X"
  by (simp add: fld_def drop_bit_take_bit drop_bit_drop_bit ac_simps)

lemma fld_join: "fld d m X + push_bit m (fld (d + m) n X) = fld d (m + n) X"
proof -
  let ?Y = "drop_bit d X"
  have "take_bit (m + n) ?Y = push_bit m (drop_bit m (take_bit (m + n) ?Y)) + take_bit m (take_bit (m + n) ?Y)"
    by (simp only: bits_ident)
  also have "drop_bit m (take_bit (m + n) ?Y) = take_bit n (drop_bit (d + m) X)"
    by (simp add: drop_bit_take_bit drop_bit_drop_bit ac_simps)
  also have "take_bit m (take_bit (m + n) ?Y) = take_bit m ?Y"
    by simp
  finally show ?thesis by (simp add: fld_def)
qed

lemma byte_and_low: "c = mask m \<Longrightarrow> m \<le> 8 \<Longrightarrow> fld d 8 X AND c = fld d m X"
proof -
  assume "c = mask m" "m \<le> 8"
  then have "fld d 8 X AND c = fld 0 m (fld d 8 X)"
    by (simp add: fld_def take_bit_eq_mask)
  also have "\<dots> = fld d m X" using \<open>m \<le> 8\<close> by (simp add: fld_fld min_def)
  finally show ?thesis .
qed

lemma byte_shr_and: "c = push_bit k (mask m) \<Longrightarrow> k + m \<le> 8 \<Longrightarrow> f = d + k \<Longrightarrow>
  drop_bit k (fld d 8 X AND c) = fld f m X"
proof -
  assume a: "c = push_bit k (mask m)" "k + m \<le> 8" "f = d + k"
  have "fld d 8 X AND c = push_bit k (fld k m (fld d 8 X))"
    using a(1) by (simp only: and_mask_shape fld_def)
  then have "drop_bit k (fld d 8 X AND c) = fld k m (fld d 8 X)"
    by (simp add: drop_bit_push_bit)
  also have "\<dots> = fld f m X" using a by (auto simp: fld_fld min_def)
  finally show ?thesis .
qed

lemma byte_and_shr: "c = mask m \<Longrightarrow> k + m \<le> 8 \<Longrightarrow> f = d + k \<Longrightarrow>
  drop_bit k (fld d 8 X) AND c = fld f m X"
proof -
  assume a: "c = mask m" "k + m \<le> 8" "f = d + k"
  then have "drop_bit k (fld d 8 X) AND c = fld k m (fld d 8 X)"
    by (simp add: fld_def take_bit_eq_mask)
  also have "\<dots> = fld f m X" using a by (auto simp: fld_fld min_def)
  finally show ?thesis .
qed

lemma straddle_shr_and: "c1 = push_bit k1 (mask m1) \<Longrightarrow> k1 + m1 = 8 \<Longrightarrow> c2 = mask (n - m1) \<Longrightarrow> m1 \<le> n \<Longrightarrow>
   n - m1 \<le> 8 \<Longrightarrow> e = d + 8 \<Longrightarrow> f = d + k1 \<Longrightarrow>
  drop_bit k1 (fld d 8 X AND c1) + push_bit m1 (fld e 8 X AND c2) = fld f n X"
proof -
  assume a: "c1 = push_bit k1 (mask m1)" "k1 + m1 = 8" "c2 = mask (n - m1)" "m1 \<le> n"
    "n - m1 \<le> 8" "e = d + 8" "f = d + k1"
  have 1: "drop_bit k1 (fld d 8 X AND c1) = fld f m1 X"
    using a by (intro byte_shr_and) auto
  have 2: "fld e 8 X AND c2 = fld (f + m1) (n - m1) X"
    using a byte_and_low[of c2 "n - m1" e X] by (simp add: ac_simps)
  show ?thesis unfolding 1 2 using fld_join[of f m1 X "n - m1"] a by simp
qed

lemma straddle_and_shr: "c1 = mask m1 \<Longrightarrow> k1 + m1 = 8 \<Longrightarrow> c2 = mask (n - m1) \<Longrightarrow> m1 \<le> n \<Longrightarrow>
   n - m1 \<le> 8 \<Longrightarrow> e = d + 8 \<Longrightarrow> f = d + k1 \<Longrightarrow>
  (drop_bit k1 (fld d 8 X) AND c1) + push_bit m1 (fld e 8 X AND c2) = fld f n X"
proof -
  assume a: "c1 = mask m1" "k1 + m1 = 8" "c2 = mask (n - m1)" "m1 \<le> n"
    "n - m1 \<le> 8" "e = d + 8" "f = d + k1"
  have 1: "drop_bit k1 (fld d 8 X) AND c1 = fld f m1 X"
    using a by (intro byte_and_shr) auto
  have 2: "fld e 8 X AND c2 = fld (f + m1) (n - m1) X"
    using a byte_and_low[of c2 "n - m1" e X] by (simp add: ac_simps)
  show ?thesis unfolding 1 2 using fld_join[of f m1 X "n - m1"] a by simp
qed

lemma list_eq_ConsI: "x = y \<Longrightarrow> xs = ys \<Longrightarrow> x # xs = y # ys" by simp

lemmas dec_intros = list_eq_ConsI refl[of "[]"] straddle_shr_and straddle_and_shr byte_shr_and byte_and_shr byte_and_low

lemma extract_bits_3_fld:
  "extract_bits_3 (fld 0 8 X) (fld 8 8 X) (fld 16 8 X) =
     [fld 0 3 X, fld 3 3 X, fld 6 3 X, fld 9 3 X, fld 12 3 X, fld 15 3 X, fld 18 3 X, fld 21 3 X]"
  unfolding extract_bits_3_def
  by (intro dec_intros; simp add: mask_eq_exp_minus_1 push_bit_eq_mult)

lemma extract_bits_5_fld:
  "extract_bits_5 (fld 0 8 X) (fld 8 8 X) (fld 16 8 X) (fld 24 8 X) (fld 32 8 X) =
     [fld 0 5 X, fld 5 5 X, fld 10 5 X, fld 15 5 X, fld 20 5 X, fld 25 5 X, fld 30 5 X, fld 35 5 X]"
  unfolding extract_bits_5_def
  by (intro dec_intros; simp add: mask_eq_exp_minus_1 push_bit_eq_mult)

lemma extract_bits_6_fld:
  "extract_bits_6 (fld 0 8 X) (fld 8 8 X) (fld 16 8 X) =
     [fld 0 6 X, fld 6 6 X, fld 12 6 X, fld 18 6 X]"
  unfolding extract_bits_6_def
  by (intro dec_intros; simp add: mask_eq_exp_minus_1 push_bit_eq_mult)


lemma unat_byte_of:
  "unat (ucast (drop_bit d (W::'a::len word)) :: u8) = fld d 8 (unat W)"
proof -
  have "take_bit LENGTH('a) (unat W) = unat W"
    by (simp add: take_bit_nat_eq_self unsigned_less)
  then show ?thesis
    by (simp add: fld_def unsigned_ucast_eq unsigned_drop_bit_eq unsigned_take_bit_eq)
qed

lemma fld_take_bit: "d + n \<le> m \<Longrightarrow> fld d n (take_bit m X) = fld d n X"
  by (auto simp: fld_def drop_bit_take_bit min_def)

lemma fld_and_mask8: "c = push_bit k (mask 8) \<Longrightarrow> fld k 8 (x AND c) = fld k 8 x"
  by (rule bit_eqI) (auto simp: bit_fld bit_simps)

lemma encode_el_Suc:
  "encode_el bits (Suc n) code = encode_el bits n code OR push_bit (n * bits) (code n)"
  by (simp add: encode_el_def)

lemma bit_less_exp: "(x::nat) < 2 ^ s \<Longrightarrow> bit x j \<Longrightarrow> j < s"
  by (metis bit_take_bit_iff take_bit_nat_eq_self)

lemma or_push_bit_less:
  assumes "(x::nat) < 2 ^ s" "c < 2 ^ b"
  shows "x OR push_bit s c < 2 ^ (s + b)"
proof -
  have "take_bit (s + b) (x OR push_bit s c) = x OR push_bit s c"
    by (rule bit_eqI) (auto simp: bit_simps dest: bit_less_exp[OF assms(1)] bit_less_exp[OF assms(2)])
  then show ?thesis by (metis take_bit_nat_less_exp)
qed

lemma fld_or_push_bit_top:
  assumes "(x::nat) < 2 ^ s" "c < 2 ^ b"
  shows "fld s b (x OR push_bit s c) = c"
  by (rule bit_eqI) (auto simp: bit_fld bit_simps dest: bit_less_exp[OF assms(1)] bit_less_exp[OF assms(2)])

lemma fld_or_push_bit_low:
  assumes "d + m \<le> s"
  shows "fld d m (x OR push_bit s c) = fld d m x"
  using assms by (intro bit_eqI) (auto simp: bit_fld bit_simps)

lemma encode_el_nat:
  assumes "\<And>k. k < n \<Longrightarrow> unat (code k) < 2 ^ bits" "n * bits \<le> 64"
  shows "unat (encode_el bits n code) < 2 ^ (n * bits) \<and>
         (\<forall>k<n. fld (k * bits) bits (unat (encode_el bits n code)) = unat (code k))"
  using assms
proof (induction n)
  case 0
  then show ?case by (simp add: encode_el_def)
next
  case (Suc n)
  define x where "x = unat (encode_el bits n code)"
  define c where "c = unat (code n)"
  define s where "s = n * bits"
  have ih: "x < 2 ^ s" "\<And>k. k < n \<Longrightarrow> fld (k * bits) bits x = unat (code k)"
    using Suc by (auto simp: x_def s_def)
  have c: "c < 2 ^ bits" using Suc.prems by (simp add: c_def)
  have sb: "s + bits \<le> 64" using Suc.prems by (simp add: ac_simps s_def)
  have un: "unat (encode_el bits (Suc n) code) = x OR push_bit s c"
  proof -
    have "push_bit s c < (2::nat) ^ 64"
    proof -
      have "push_bit s c < 2 ^ s * 2 ^ bits" using c by (simp add: push_bit_eq_mult)
      also have "\<dots> = 2 ^ (s + bits)" by (simp add: power_add)
      also have "\<dots> \<le> (2::nat) ^ 64" using sb by (intro power_increasing) simp_all
      finally show ?thesis .
    qed
    then have "unat (push_bit s (code n)) = push_bit s c"
      by (simp add: unsigned_push_bit_eq take_bit_nat_eq_self c_def)
    then show ?thesis by (simp add: encode_el_Suc unsigned_or_eq x_def s_def)
  qed
  have bnd: "x OR push_bit s c < 2 ^ (Suc n * bits)"
    using or_push_bit_less[OF ih(1) c] by (simp add: s_def ac_simps)
  have low: "fld (k * bits) bits (x OR push_bit s c) = unat (code k)" if "k < n" for k
  proof -
    have "(k + 1) * bits \<le> n * bits" using that by (intro mult_le_mono1) simp
    then have "k * bits + bits \<le> s" by (simp add: s_def)
    then show ?thesis using ih(2)[OF that] by (simp add: fld_or_push_bit_low)
  qed
  have top: "fld (n * bits) bits (x OR push_bit s c) = unat (code n)"
    using fld_or_push_bit_top[OF ih(1) c] by (simp add: s_def c_def)
  show ?case unfolding un using bnd low top by (auto simp: less_Suc_eq)
qed

subsection \<open>Packing followed by unpacking\<close>

lemma upt_4: "[0..<4] = [0,1,2,3::nat]" by (simp add: upt_rec)
lemma upt_2: "[0..<2] = [0,1::nat]" by (simp add: upt_rec)
lemma upt_8: "[0..<8] = [0,1,2,3,4,5,6,7::nat]" by (simp add: upt_rec)
lemma upt_16: "[0..<16] = [0,1,2,3,4,5,6,7,8,9,10,11,12,13,14,15::nat]" by (simp add: upt_rec)

lemma unat_drop_bit_u8: "unat (drop_bit d (b::u8)) = drop_bit d (unat b)"
proof -
  have "take_bit 8 (unat b) = unat b"
    using unsigned_less[of b, where 'a=nat] by (simp add: take_bit_nat_eq_self)
  then show ?thesis by (simp add: unsigned_drop_bit_eq)
qed

lemma unat_and_mask_fld:
  "c = mask m \<Longrightarrow> unat (drop_bit d (b::u8)) AND c = fld d m (unat b)"
  by (simp only: unat_drop_bit_u8 fld_def take_bit_eq_mask)

lemma unpack_byte_2:
  "unpack_byte 2 b = [fld 0 2 (unat b), fld 2 2 (unat b), fld 4 2 (unat b), fld 6 2 (unat b)]"
proof -
  have m: "(3::nat) = mask 2" by (simp add: mask_eq_exp_minus_1)
  have "unpack_byte 2 b = [unat (drop_bit 0 b) AND 3, unat (drop_bit 2 b) AND 3,
      unat (drop_bit 4 b) AND 3, unat (drop_bit 6 b) AND 3]"
    by (simp add: unpack_byte_def shift_mask_loop_def get_pack_factor_def upt_4 drop_bit_drop_bit)
  then show ?thesis by (simp only: unat_and_mask_fld[OF m])
qed

lemma unpack_byte_4:
  "unpack_byte 4 b = [fld 0 4 (unat b), fld 4 4 (unat b)]"
proof -
  have m: "(15::nat) = mask 4" by (simp add: mask_eq_exp_minus_1)
  have "unpack_byte 4 b = [unat (drop_bit 0 b) AND 15, unat (drop_bit 4 b) AND 15]"
    by (simp add: unpack_byte_def shift_mask_loop_def get_pack_factor_def upt_2)
  then show ?thesis by (simp only: unat_and_mask_fld[OF m])
qed

lemma unpack_byte_8:
  "unpack_byte 8 b = [fld 0 8 (unat b)]"
proof -
  have m: "(255::nat) = mask 8" by (simp add: mask_eq_exp_minus_1)
  have "unpack_byte 8 b = [unat (drop_bit 0 b) AND 255]"
    by (simp add: unpack_byte_def shift_mask_loop_def get_pack_factor_def)
  then show ?thesis by (simp only: unat_and_mask_fld[OF m])
qed


lemma unat_stored_byte:
  "unat (ucast (drop_bit d (X::u64) AND 255) :: u8) = fld d 8 (unat X)"
proof -
  have "unat (ucast (drop_bit d X AND 255) :: u8) = take_bit 8 (unat (drop_bit d X) AND 255)"
    by (simp only: unsigned_ucast_eq unsigned_and_eq) simp
  also have "\<dots> = take_bit 8 (unat (drop_bit d X))"
  proof -
    have m: "(255::nat) = mask 8" by (simp add: mask_eq_exp_minus_1)
    show ?thesis by (simp only: m take_bit_eq_mask[symmetric] take_bit_take_bit min.idem)
  qed
  also have "\<dots> = fld d 8 (unat X)"
    using unat_byte_of[of d X] by (simp add: unsigned_ucast_eq)
  finally show ?thesis .
qed

lemma unat_stored_byte0:
  "unat (ucast ((X::u64) AND 255) :: u8) = fld 0 8 (unat X)"
  using unat_stored_byte[of 0 X] by simp

lemma fld_unat_drop_bit: "fld 0 8 (unat (drop_bit d (X::u64))) = fld d 8 (unat X)"
  using unat_stored_byte[of d X] unat_stored_byte0[of "drop_bit d X"] by simp

lemma unat_le_byte:
  "d + 8 \<le> 32 \<Longrightarrow> unat (ucast (drop_bit d (ucast (X::u64) :: u32)) :: u8) = fld d 8 (unat X)"
proof -
  assume "d + 8 \<le> 32"
  have "unat (ucast (drop_bit d (ucast X :: u32)) :: u8) = fld d 8 (unat (ucast X :: u32))"
    by (simp only: unat_byte_of)
  also have "\<dots> = fld d 8 (take_bit 32 (unat X))"
    by (simp add: unsigned_ucast_eq)
  finally show ?thesis using \<open>d + 8 \<le> 32\<close> by (simp add: fld_take_bit)
qed

lemma unat_le_byte0:
  "unat (ucast (ucast (X::u64) :: u32) :: u8) = fld 0 8 (unat X)"
  using unat_le_byte[of 0 X] by simp

lemma unat_code: "c \<le> 2 ^ bits - 1 \<Longrightarrow> bits \<le> 8 \<Longrightarrow> unat (of_nat c :: u64) = c \<and> c < 2 ^ bits"
proof -
  assume a: "c \<le> 2 ^ bits - 1" "bits \<le> 8"
  have "(2::nat) ^ bits \<le> 2 ^ 8" using a(2) by (intro power_increasing) simp_all
  moreover have "c < 2 ^ bits" using a(1)
    by (metis Suc_pred' less_Suc_eq_le zero_less_numeral zero_less_power) 
  ultimately have "c < 2 ^ 64" by simp
  then have "unat (of_nat c :: u64) = c" by (simp add: unat_of_nat)
  then show ?thesis using \<open>c < 2 ^ bits\<close> by simp
qed

lemma encode_codes:
  assumes "\<forall>c\<in>set cs. c \<le> 2 ^ bits - 1" "bits \<le> 8" "length cs = n" "n * bits \<le> 64"
  shows "\<forall>k\<in>set [0..<n]. fld (k * bits) bits (unat (encode_el bits n (\<lambda>k. of_nat (cs ! k)))) = cs ! k"
proof -
  have c: "unat (of_nat (cs ! k) :: u64) = cs ! k \<and> cs ! k < 2 ^ bits" if "k < n" for k
    using assms that by (intro unat_code) auto
  have "\<forall>k<n. fld (k * bits) bits (unat (encode_el bits n (\<lambda>k. of_nat (cs ! k)))) = unat (of_nat (cs ! k) :: u64)"
    using encode_el_nat[of n "\<lambda>k. of_nat (cs ! k)" bits] c assms(4) by simp
  then show ?thesis using c by simp
qed

lemma list_nth_expand: "length cs = n \<Longrightarrow> map (\<lambda>k. cs ! k) [0..<n] = cs"
  by (metis map_nth)

lemma replicate_3: "replicate 3 x = [x, x, x]" by (simp add: numeral_3_eq_3)
lemma replicate_5: "replicate 5 x = [x, x, x, x, x]" by (simp add: eval_nat_numeral)

lemma roundtrip_3:
  assumes "length cs = 8" "\<forall>c\<in>set cs. c \<le> 2 ^ 3 - 1"
  shows "unpack_codes 3 (pack_codes 3 cs) = cs"
proof -
  define X where "X = encode_el 3 8 (\<lambda>k. of_nat (cs ! k))"
  have np: "\<not> is_power_of_2 3" by (simp add: is_power_of_2_def)
  have pk: "pack_codes 3 cs = [ucast (X AND 0xff), ucast (drop_bit 8 (X AND 0xff00)),
      ucast (drop_bit 16 (X AND 0xff0000))]"
    by (simp add: pack_codes_def get_pack_factor_def get_bytes_per_pack_def store_el_def np 
        replicate_3 Let_def flip: X_def)
  have "unpack_codes 3 (pack_codes 3 cs) =
     extract_bits_3 (fld 0 8 (unat X)) (fld 8 8 (unat X)) (fld 16 8 (unat X))"
    by (simp add: pk unpack_codes_def extract_bits_int_def unat_stored_byte0 fld_unat_drop_bit)
  also have "\<dots> = map (\<lambda>k. cs ! k) [0..<8]"
    using encode_codes[OF assms(2) _ assms(1)]
    by (simp add: extract_bits_3_fld upt_8 X_def)
  finally show ?thesis using list_nth_expand[OF assms(1)] by simp
qed

lemma roundtrip_5:
  assumes "length cs = 8" "\<forall>c\<in>set cs. c \<le> 2 ^ 5 - 1"
  shows "unpack_codes 5 (pack_codes 5 cs) = cs"
proof -
  define X where "X = encode_el 5 8 (\<lambda>k. of_nat (cs ! k))"
  have np: "\<not> is_power_of_2 5" by (simp add: is_power_of_2_def)
  have pk: "pack_codes 5 cs = [ucast (X AND 0xff), ucast (drop_bit 8 (X AND 0xff00)),
      ucast (drop_bit 16 (X AND 0xff0000)), ucast (drop_bit 24 (X AND 0xff000000)),
      ucast (drop_bit 32 (X AND 0xff00000000))]"
    by (simp add: pack_codes_def get_pack_factor_def get_bytes_per_pack_def store_el_def np 
        replicate_5 Let_def flip: X_def)
  have "unpack_codes 5 (pack_codes 5 cs) =
     extract_bits_5 (fld 0 8 (unat X)) (fld 8 8 (unat X)) (fld 16 8 (unat X))
       (fld 24 8 (unat X)) (fld 32 8 (unat X))"
    by (simp add: pk unpack_codes_def extract_bits_int_def unat_stored_byte0 fld_unat_drop_bit)
  also have "\<dots> = map (\<lambda>k. cs ! k) [0..<8]"
    using encode_codes[OF assms(2) _ assms(1)]
    by (simp add: extract_bits_5_fld upt_8 X_def)
  finally show ?thesis using list_nth_expand[OF assms(1)] by simp
qed

lemma roundtrip_6:
  assumes "length cs = 4" "\<forall>c\<in>set cs. c \<le> 2 ^ 6 - 1"
  shows "unpack_codes 6 (pack_codes 6 cs) = cs"
proof -
  define X where "X = encode_el 6 4 (\<lambda>k. of_nat (cs ! k))"
  have np: "\<not> is_power_of_2 6" by (simp add: is_power_of_2_def)
  have pk: "pack_codes 6 cs = [ucast (X AND 0xff), ucast (drop_bit 8 (X AND 0xff00)),
      ucast (drop_bit 16 (X AND 0xff0000))]"
    by (simp add: pack_codes_def get_pack_factor_def get_bytes_per_pack_def store_el_def np 
        replicate_3 Let_def flip: X_def)
  have "unpack_codes 6 (pack_codes 6 cs) =
     extract_bits_6 (fld 0 8 (unat X)) (fld 8 8 (unat X)) (fld 16 8 (unat X))"
    by (simp add: pk unpack_codes_def extract_bits_int_def unat_stored_byte0 fld_unat_drop_bit)
  also have "\<dots> = map (\<lambda>k. cs ! k) [0..<4]"
    using encode_codes[OF assms(2) _ assms(1)]
    by (simp add: extract_bits_6_fld upt_4 X_def)
  finally show ?thesis using list_nth_expand[OF assms(1)] by simp
qed

lemma pack_codes_pow2:
  "is_power_of_2 bits \<Longrightarrow>
   map unat (pack_codes bits cs) =
     (let x = unat (encode_el bits (get_pack_factor bits 32) (\<lambda>k. of_nat (cs ! k)))
      in [fld 0 8 x, fld 8 8 x, fld 16 8 x, fld 24 8 x])"
  by (simp add: pack_codes_def store_el_def bytes_of_words_def le_bytes_def Let_def
      unat_le_byte unat_le_byte0)

lemma unpack_codes_pow2:
  "bits = 2 \<or> bits = 4 \<or> bits = 8 \<Longrightarrow>
   unpack_codes bits bs = concat (map (unpack_byte bits) bs)"
  by (auto simp: unpack_codes_def)

lemma roundtrip_2:
  assumes "length cs = 16" "\<forall>c\<in>set cs. c \<le> 2 ^ 2 - 1"
  shows "unpack_codes 2 (pack_codes 2 cs) = cs"
proof -
  define x where "x = unat (encode_el 2 16 (\<lambda>k. of_nat (cs ! k)))"
  have p: "is_power_of_2 2" by (simp add: is_power_of_2_def)
  obtain b0 b1 b2 b3 where bs: "pack_codes 2 cs = [b0, b1, b2, b3]"
    and u: "unat b0 = fld 0 8 x" "unat b1 = fld 8 8 x" "unat b2 = fld 16 8 x" "unat b3 = fld 24 8 x"
    using pack_codes_pow2[OF p, of cs]
    by (auto simp: Let_def get_pack_factor_def x_def map_eq_Cons_conv)
  have "unpack_codes 2 (pack_codes 2 cs) = map (\<lambda>k. fld (k * 2) 2 x) [0..<16]"
    by (simp add: unpack_codes_pow2 bs unpack_byte_2 u fld_fld upt_16 numeral_2_eq_2[symmetric])
  also have "\<dots> = map (\<lambda>k. cs ! k) [0..<16]"
    using encode_codes[OF assms(2) _ assms(1)]
    by (simp add: x_def)
  finally show ?thesis using list_nth_expand[OF assms(1)] by simp
qed

lemma roundtrip_4:
  assumes "length cs = 8" "\<forall>c\<in>set cs. c \<le> 2 ^ 4 - 1"
  shows "unpack_codes 4 (pack_codes 4 cs) = cs"
proof -
  define x where "x = unat (encode_el 4 8 (\<lambda>k. of_nat (cs ! k)))"
  have p: "is_power_of_2 4" by (simp add: is_power_of_2_def)
  obtain b0 b1 b2 b3 where bs: "pack_codes 4 cs = [b0, b1, b2, b3]"
    and u: "unat b0 = fld 0 8 x" "unat b1 = fld 8 8 x" "unat b2 = fld 16 8 x" "unat b3 = fld 24 8 x"
    using pack_codes_pow2[OF p, of cs]
    by (auto simp: Let_def get_pack_factor_def x_def map_eq_Cons_conv)
  have "unpack_codes 4 (pack_codes 4 cs) = map (\<lambda>k. fld (k * 4) 4 x) [0..<8]"
    by (simp add: unpack_codes_pow2 bs unpack_byte_4 u fld_fld upt_8)
  also have "\<dots> = map (\<lambda>k. cs ! k) [0..<8]"
    using encode_codes[OF assms(2) _ assms(1)]
    by (simp add: x_def)
  finally show ?thesis using list_nth_expand[OF assms(1)] by simp
qed

lemma roundtrip_8:
  assumes "length cs = 4" "\<forall>c\<in>set cs. c \<le> 2 ^ 8 - 1"
  shows "unpack_codes 8 (pack_codes 8 cs) = cs"
proof -
  define x where "x = unat (encode_el 8 4 (\<lambda>k. of_nat (cs ! k)))"
  have p: "is_power_of_2 8" by (simp add: is_power_of_2_def)
  obtain b0 b1 b2 b3 where bs: "pack_codes 8 cs = [b0, b1, b2, b3]"
    and u: "unat b0 = fld 0 8 x" "unat b1 = fld 8 8 x" "unat b2 = fld 16 8 x" "unat b3 = fld 24 8 x"
    using pack_codes_pow2[OF p, of cs]
    by (auto simp: Let_def get_pack_factor_def x_def map_eq_Cons_conv)
  have "unpack_codes 8 (pack_codes 8 cs) = map (\<lambda>k. fld (k * 8) 8 x) [0..<4]"
    by (simp add: unpack_codes_pow2 bs unpack_byte_8 u fld_fld upt_4)
  also have "\<dots> = map (\<lambda>k. cs ! k) [0..<4]"
    using encode_codes[OF assms(2) _ assms(1)]
    by (simp add: x_def)
  finally show ?thesis using list_nth_expand[OF assms(1)] by simp
qed

text \<open>
  Claim C5.  For each of the widths 2, 3, 4, 5, 6 and 8 and each sequence of
  \<open>pack_factor\<close> integers between 0 and \<open>2 ^ bits - 1\<close> (as many as the
  quantizer packs into one element), packing the sequence with the encode path
  of the quantizer and decoding the stored bytes with the decode path of the
  kernels gives the sequence back, in the same order.
\<close>

theorem pack_unpack_roundtrip:
  assumes "bits \<in> {2, 3, 4, 5, 6, 8}"
    and "length cs = get_pack_factor bits 32"
    and "\<forall>c\<in>set cs. 0 \<le> c \<and> c \<le> 2 ^ bits - 1"
  shows "unpack_codes bits (pack_codes bits cs) = cs"
  using assms roundtrip_2 roundtrip_3 roundtrip_4 roundtrip_5 roundtrip_6 roundtrip_8
  by (auto simp: get_pack_factor_def)

theorem pack_unpack_roundtrip_witness:
  "unpack_codes 3 (pack_codes 3 [0, 7, 1, 6, 2, 5, 3, 4]) = [0, 7, 1, 6, 2, 5, 3, 4] \<and>
   unpack_codes 4 (pack_codes 4 [0, 15, 1, 14, 2, 13, 3, 12]) = [0, 15, 1, 14, 2, 13, 3, 12]"
  using pack_unpack_roundtrip[of 3 "[0, 7, 1, 6, 2, 5, 3, 4]"]
    pack_unpack_roundtrip[of 4 "[0, 15, 1, 14, 2, 13, 3, 12]"]
  by (simp add: get_pack_factor_def)

section \<open>Properties of the kernels\<close>

lemma fold_const_funpow: "fold (\<lambda>_. f) xs s = (f ^^ length xs) s"
  by (induction xs arbitrary: s) (simp_all add: funpow_swap1)

lemma for_step_funpow:
  "0 < step \<Longrightarrow> for_step step n i body s = (body ^^ ((n - i + step - 1) div step)) s"
proof (induction step n i body s rule: for_step.induct)
  case (1 step n i body s)
  show ?case
  proof (cases "i < n")
    case True
    have cnt: "(n - i + step - 1) div step = Suc ((n - (i + step) + step - 1) div step)"
    proof -
      have "(n - i + step - 1) div step = ((n - i - 1) + step) div step"
        using True by simp
      also have "\<dots> = Suc ((n - i - 1) div step)"
        using 1(2) by simp
      also have "(n - i - 1) div step = (n - (i + step) + step - 1) div step"
      proof (cases "i + step \<le> n")
        case True
        then show ?thesis using 1(2) by (simp add: algebra_simps)
      next
        case False
        then have "n - i - 1 < step" using 1(2) by simp
        then show ?thesis using False 1(2) by simp
      qed
      finally show ?thesis .
    qed
    have "for_step step n i body s = for_step step n (i + step) body (body s)"
      using True 1(2) by (subst for_step.simps) simp
    also have "\<dots> = (body ^^ ((n - (i + step) + step - 1) div step)) (body s)"
      using 1(1)[OF _ 1(2)] True 1(2) by simp
    also have "\<dots> = (body ^^ ((n - i + step - 1) div step)) s"
      unfolding cnt by (simp add: funpow_swap1)
    finally show ?thesis .
  next
    case False
    then show ?thesis using 1(2) by (subst for_step.simps) simp
  qed
qed

lemma for_step_dvd:
  assumes "0 < step" "step dvd n"
  shows "for_step step n 0 body s = (body ^^ (n div step)) s"
proof -
  obtain q where n: "n = step * q" using assms(2) by (auto simp: dvd_def)
  have "(step * q + step - 1) div step = q"
  proof -
    obtain t where t: "step = Suc t" using assms(1) by (cases step) auto
    have "step * q + step - 1 = t + q * step" by (simp add: t algebra_simps)
    moreover have "(t + q * step) div step = q"
    proof -
      have "t < step" using t by simp
      have "step \<noteq> 0" using assms(1) by simp
      then have "(t + q * step) div step = q + t div step"
        by (rule div_mult_self1)
      then show ?thesis using \<open>t < step\<close> by simp
    qed
    ultimately show ?thesis by simp
  qed
  then show ?thesis using for_step_funpow[OF assms(1), of n 0 body s] assms(1) by (simp add: n)
qed

text \<open>Nested loops as one loop\<close>

lemma fold_upt_Suc: "fold f [0..<Suc n] s = f n (fold f [0..<n] s)"
  by simp

lemma fold_upt_add:
  "fold f [0..<a + b] s = fold (\<lambda>j. f (a + j)) [0..<b] (fold f [0..<a] s)"
proof (induction b)
  case 0
  then show ?case by simp
next
  case (Suc b)
  have "fold f [0..<a + Suc b] s = f (a + b) (fold f [0..<a + b] s)"
    by simp
  then show ?case using Suc by simp
qed

lemma fold_nested:
  "fold (\<lambda>i s. fold (\<lambda>j. f (i * b + j)) [0..<b] s) [0..<a] s = fold f [0..<a * b] s"
proof (induction a)
  case 0
  then show ?case by simp
next
  case (Suc a)
  have "fold f [0..<Suc a * b] s = fold f [0..<a * b + b] s"
    by (simp add: add.commute)
  also have "\<dots> = fold (\<lambda>j. f (a * b + j)) [0..<b] (fold f [0..<a * b] s)"
    by (rule fold_upt_add)
  finally show ?case using Suc by simp
qed

text \<open>A loop that also counts\<close>

lemma fold_counting:
  "fold (\<lambda>p (s, c). (g p s c, c + d)) [0..<n] (s, c) =
     (fold (\<lambda>p s. g p s (c + p * d)) [0..<n] s, c + n * d)"
  by (induction n) (simp_all add: algebra_simps)

lemma shift_mask_fold:
  "fold (\<lambda>p (wi, s). (sh wi, use p s (g wi))) [0..<n] (wi, s) =
     ((sh ^^ n) wi, fold (\<lambda>p s. use p s (g ((sh ^^ p) wi))) [0..<n] s)"
  by (induction n) simp_all

lemma fold_snoc_map: "fold (\<lambda>p vs. vs @ [v p]) [0..<n] [] = map v [0..<n]"
  by (induction n) simp_all

lemma shift_mask_loop_unpack:
  "shift_mask_loop bits use wi s =
     fold (\<lambda>p s. use p s (unpack_byte bits wi ! p)) [0..<get_pack_factor bits 8] s"
proof -
  define sh where "sh = (\<lambda>w::u8. if bits \<noteq> 8 then drop_bit bits w else w)"
  define g where "g = (\<lambda>w::u8. unat w AND (2 ^ bits - 1))"
  define n where "n = get_pack_factor bits 8"
  have loop: "shift_mask_loop bits use' wi s' = fold (\<lambda>p s. use' p s (g ((sh ^^ p) wi))) [0..<n] s'"
    for use' :: "nat \<Rightarrow> 'b \<Rightarrow> nat \<Rightarrow> 'b" and s'
    unfolding shift_mask_loop_def n_def[symmetric]
    using shift_mask_fold[of sh use' g n wi s']
    by (simp add: sh_def g_def)
  have "unpack_byte bits wi = map (\<lambda>p. g ((sh ^^ p) wi)) [0..<n]"
    unfolding unpack_byte_def loop by (rule fold_snoc_map)
  then have "\<And>p. p < n \<Longrightarrow> unpack_byte bits wi ! p = g ((sh ^^ p) wi)"
    by simp
  then have "fold (\<lambda>p s. use p s (unpack_byte bits wi ! p)) [0..<n] s =
      fold (\<lambda>p s. use p s (g ((sh ^^ p) wi))) [0..<n] s"
    by (intro fold_cong) auto
  then show ?thesis using loop[of use s] by (simp add: n_def)
qed

lemma length_unpack_byte: "length (unpack_byte bits wi) = get_pack_factor bits 8"
proof -
  have "unpack_byte bits wi = fold (\<lambda>p vs. vs @ [unpack_byte bits wi ! p]) [0..<get_pack_factor bits 8] []"
    unfolding unpack_byte_def[of bits wi] 
    by (subst shift_mask_loop_unpack) (simp add: unpack_byte_def)
  then show ?thesis
    by (metis fold_snoc_map length_map length_upt minus_nat.diff_0)
qed

lemma length_pack_vals:
  "bits \<in> {2, 3, 4, 5, 6, 8} \<Longrightarrow> length (pack_vals bits w wl) = get_pack_factor bits 8"
  by (auto simp: pack_vals_def length_unpack_byte extract_bits_int_def get_pack_factor_def
      extract_bits_3_def extract_bits_5_def extract_bits_6_def)

lemma bytes_per_pack_pow2:
  "bits = 2 \<or> bits = 4 \<or> bits = 8 \<Longrightarrow> get_bytes_per_pack bits 8 = 1"
  by (auto simp: get_bytes_per_pack_def)

lemma qmm_t_pack_eq:
  assumes "bits \<in> {2, 3, 4, 5, 6, 8}"
  shows "qmm_t_pack cast bits x w scale bias (s0, xl, wl) =
     (fold (\<lambda>p s. s + x ! (xl + p) * (scale * cast (pack_vals bits w wl ! p) + bias))
        [0..<get_pack_factor bits 8] s0,
      xl + get_pack_factor bits 8, wl + get_bytes_per_pack bits 8)"
proof (cases "bits = 3 \<or> bits = 5 \<or> bits = 6")
  case True
  have len: "length (extract_bits_int bits (drop wl w)) = get_pack_factor bits 8"
    using length_pack_vals[OF assms, of w wl] True by (simp add: pack_vals_def)
  have "fold (\<lambda>p s. s + x ! (xl + p) * (scale * extract_bits cast bits (drop wl w) ! p + bias))
          [0..<get_pack_factor bits 8] s0 =
        fold (\<lambda>p s. s + x ! (xl + p) * (scale * cast (pack_vals bits w wl ! p) + bias))
          [0..<get_pack_factor bits 8] s0"
    using True len by (intro fold_cong) (auto simp: extract_bits_def pack_vals_def)
  then show ?thesis using True by (simp add: qmm_t_pack_def Let_def)
next
  case False
  then have p2: "bits = 2 \<or> bits = 4 \<or> bits = 8" using assms by auto
  have "shift_mask_loop bits
          (\<lambda>p (sum, x_local) v. (sum + x ! x_local * (scale * cast v + bias), x_local + 1))
          (w ! wl) (s0, xl) =
        fold (\<lambda>p (s, c). (s + x ! c * (scale * cast (unpack_byte bits (w ! wl) ! p) + bias), c + 1))
          [0..<get_pack_factor bits 8] (s0, xl)"
    by (simp add: shift_mask_loop_unpack split_def)
  also have "\<dots> = (fold (\<lambda>p s. s + x ! (xl + p) * (scale * cast (unpack_byte bits (w ! wl) ! p) + bias))
          [0..<get_pack_factor bits 8] s0, xl + get_pack_factor bits 8)"
    using fold_counting[of "\<lambda>p s c. s + x ! c * (scale * cast (unpack_byte bits (w ! wl) ! p) + bias)"
        1 "get_pack_factor bits 8" s0 xl]
    by simp
  finally show ?thesis
    using False by (simp add: qmm_t_pack_def Let_def pack_vals_def bytes_per_pack_pow2[OF p2])
qed

lemma pack_factor_pos: "bits \<in> {2, 3, 4, 5, 6, 8} \<Longrightarrow> 0 < get_pack_factor bits 8"
  by (auto simp: get_pack_factor_def)

lemma pack_factor_dvd_group:
  "bits \<in> {2, 3, 4, 5, 6, 8} \<Longrightarrow> gs \<in> {32, 64, 128} \<Longrightarrow>
   gs div get_pack_factor bits 8 * get_pack_factor bits 8 = gs"
  by (auto simp: get_pack_factor_def)

lemma qmm_t_packs:
  assumes "bits \<in> {2, 3, 4, 5, 6, 8}"
  shows "fold (\<lambda>kw. qmm_t_pack cast bits x w scale bias) [0..<n] (s0, xl, wl) =
     (fold (\<lambda>t s. s + x ! (xl + t) * deq cast bits w wl scale bias t)
        [0..<n * get_pack_factor bits 8] s0,
      xl + n * get_pack_factor bits 8, wl + n * get_bytes_per_pack bits 8)"
proof (induction n)
  case 0
  then show ?case by simp
next
  case (Suc n)
  define pf where "pf = get_pack_factor bits 8"
  define bpp where "bpp = get_bytes_per_pack bits 8"
  define f where "f = (\<lambda>t s. s + x ! (xl + t) * deq cast bits w wl scale bias t)"
  have pf: "0 < pf" using pack_factor_pos[OF assms] by (simp add: pf_def)
  have step: "f (n * pf + p) s =
      s + x ! (xl + n * pf + p) * (scale * cast (pack_vals bits w (wl + n * bpp) ! p) + bias)"
    if "p < pf" for p s
    using that pf by (simp add: f_def deq_def pf_def[symmetric] bpp_def[symmetric] add.assoc)
  have "fold (\<lambda>kw. qmm_t_pack cast bits x w scale bias) [0..<Suc n] (s0, xl, wl) =
      qmm_t_pack cast bits x w scale bias (fold f [0..<n * pf] s0, xl + n * pf, wl + n * bpp)"
    using Suc by (simp add: f_def pf_def bpp_def)
  also have "\<dots> = (fold (\<lambda>p s. s + x ! (xl + n * pf + p) *
        (scale * cast (pack_vals bits w (wl + n * bpp) ! p) + bias)) [0..<pf] (fold f [0..<n * pf] s0),
      xl + n * pf + pf, wl + n * bpp + bpp)"
    by (simp add: qmm_t_pack_eq[OF assms] pf_def bpp_def)
  also have "fold (\<lambda>p s. s + x ! (xl + n * pf + p) *
        (scale * cast (pack_vals bits w (wl + n * bpp) ! p) + bias)) [0..<pf] (fold f [0..<n * pf] s0) =
      fold (\<lambda>p. f (n * pf + p)) [0..<pf] (fold f [0..<n * pf] s0)"
    by (intro fold_cong) (auto simp: step)
  also have "\<dots> = fold f [0..<n * pf + pf] s0"
    by (simp add: fold_upt_add)
  finally show ?case
    by (simp add: f_def pf_def bpp_def add.commute add.assoc)
qed

lemma qmm_t_group_eq:
  assumes "bits \<in> {2, 3, 4, 5, 6, 8}" "gs \<in> {32, 64, 128}"
  shows "qmm_t_group cast bits gs x w scales biases (s0, xl, wl, sl, bl) =
     (fold (\<lambda>t s. s + x ! (xl + t) * deq cast bits w wl (scales ! sl) (biases ! bl) t) [0..<gs] s0,
      xl + gs, wl + gs div get_pack_factor bits 8 * get_bytes_per_pack bits 8, sl + 1, bl + 1)"
  using pack_factor_dvd_group[OF assms]
  by (simp add: qmm_t_group_def Let_def qmm_t_packs[OF assms(1)])

lemma div_add_mult: "0 < (d::nat) \<Longrightarrow> (a * d + t) div d = a + t div d"
  by simp

lemma mod_add_mult: "(a * d + t) mod (d::nat) = t mod d"
  by simp

lemma deq_shift:
  assumes "0 < get_pack_factor bits 8"
  shows "deq cast bits w (wl + a * get_bytes_per_pack bits 8) scale bias t =
         deq cast bits w wl scale bias (a * get_pack_factor bits 8 + t)"
  using assms by (simp add: deq_def algebra_simps)

lemma qmm_t_groups:
  assumes "bits \<in> {2, 3, 4, 5, 6, 8}" "gs \<in> {32, 64, 128}"
  shows "(qmm_t_group cast bits gs x w scales biases ^^ g) (s0, xb, wl, sl, bl) =
     (fold (\<lambda>k s. s + x ! (xb + k) *
              deq cast bits w wl (scales ! (sl + k div gs)) (biases ! (bl + k div gs)) k)
        [0..<g * gs] s0,
      xb + g * gs, wl + g * (gs div get_pack_factor bits 8 * get_bytes_per_pack bits 8),
      sl + g, bl + g)"
proof (induction g)
  case 0
  then show ?case by simp
next
  case (Suc g)
  define pf where "pf = get_pack_factor bits 8"
  define bpp where "bpp = get_bytes_per_pack bits 8"
  define pig where "pig = gs div pf"
  define f where "f = (\<lambda>k s. s + x ! (xb + k) *
              deq cast bits w wl (scales ! (sl + k div gs)) (biases ! (bl + k div gs)) k)"
  have pf: "0 < pf" using pack_factor_pos[OF assms(1)] by (simp add: pf_def)
  have gs: "pig * pf = gs" using pack_factor_dvd_group[OF assms] by (simp add: pig_def pf_def)
  have gs0: "0 < gs" using assms(2) by auto
  have step: "f (g * gs + t) s =
      s + x ! (xb + g * gs + t) *
        deq cast bits w (wl + g * (pig * bpp)) (scales ! (sl + g)) (biases ! (bl + g)) t"
    if "t < gs" for t s
  proof -
    have e: "g * pig * pf + t = g * gs + t" using gs by (simp add: mult.assoc)
    have "deq cast bits w (wl + (g * pig) * bpp) (scales ! (sl + g)) (biases ! (bl + g)) t =
          deq cast bits w wl (scales ! (sl + g)) (biases ! (bl + g)) (g * pig * pf + t)"
      unfolding bpp_def pf_def by (rule deq_shift) (use pf in \<open>simp add: pf_def\<close>)
    then have "deq cast bits w (wl + g * (pig * bpp)) (scales ! (sl + g)) (biases ! (bl + g)) t =
          deq cast bits w wl (scales ! (sl + g)) (biases ! (bl + g)) (g * gs + t)"
      unfolding e by (simp only: mult.assoc)
    moreover have "(g * gs + t) div gs = g" using that gs0 by simp
    ultimately show ?thesis by (simp add: f_def add.assoc)
  qed
  have "(qmm_t_group cast bits gs x w scales biases ^^ Suc g) (s0, xb, wl, sl, bl) =
      qmm_t_group cast bits gs x w scales biases
        (fold f [0..<g * gs] s0, xb + g * gs, wl + g * (pig * bpp), sl + g, bl + g)"
    using Suc by (simp add: f_def pf_def bpp_def pig_def)
  also have "\<dots> = (fold (\<lambda>t s. s + x ! (xb + g * gs + t) *
        deq cast bits w (wl + g * (pig * bpp)) (scales ! (sl + g)) (biases ! (bl + g)) t)
          [0..<gs] (fold f [0..<g * gs] s0),
      xb + g * gs + gs, wl + g * (pig * bpp) + pig * bpp, sl + g + 1, bl + g + 1)"
    by (simp add: qmm_t_group_eq[OF assms] pf_def bpp_def pig_def)
  also have "fold (\<lambda>t s. s + x ! (xb + g * gs + t) *
        deq cast bits w (wl + g * (pig * bpp)) (scales ! (sl + g)) (biases ! (bl + g)) t)
          [0..<gs] (fold f [0..<g * gs] s0) =
      fold (\<lambda>t. f (g * gs + t)) [0..<gs] (fold f [0..<g * gs] s0)"
    by (intro fold_cong) (auto simp: step)
  also have "\<dots> = fold f [0..<g * gs + gs] s0"
    by (simp add: fold_upt_add)
  finally show ?case
    by (simp add: f_def pf_def bpp_def pig_def add.commute add.assoc)
qed

lemma qmm_t_col_eq:
  assumes "bits \<in> {2, 3, 4, 5, 6, 8}" "gs \<in> {32, 64, 128}" "gs dvd K"
  shows "qmm_t_col cast bits gs x w scales biases K (m * K)
           (result, r, n * (K div get_pack_factor bits 8 * get_bytes_per_pack bits 8),
            n * (K div gs), n * (K div gs)) =
     (result[r := qmm_t_val cast bits gs x w scales biases K m n], r + 1,
      Suc n * (K div get_pack_factor bits 8 * get_bytes_per_pack bits 8),
      Suc n * (K div gs), Suc n * (K div gs))"
proof -
  define pf where "pf = get_pack_factor bits 8"
  define bpp where "bpp = get_bytes_per_pack bits 8"
  define G where "G = K div gs"
  have pf: "0 < pf" using pack_factor_pos[OF assms(1)] by (simp add: pf_def)
  have gs0: "0 < gs" using assms(2) by auto
  have K: "G * gs = K" using assms(3) by (simp add: G_def)
  have gspf: "gs div pf * pf = gs" using pack_factor_dvd_group[OF assms(1,2)] by (simp add: pf_def)
  have Kpf: "K div pf = G * (gs div pf)"
  proof -
    have "K = (G * (gs div pf)) * pf" using K gspf by (simp add: mult.assoc)
    then show ?thesis using pf by simp
  qed
  have Kpf': "K div pf * pf = K" using Kpf K gspf by (simp add: mult.assoc)
  have term_eq: "x ! (m * K + k) *
        deq cast bits w (n * (K div pf * bpp)) (scales ! (n * G + k div gs)) (biases ! (n * G + k div gs)) k =
      x ! (m * K + k) *
        (scales ! ((n * K + k) div gs) * cast (code_at bits w (n * K + k))
         + biases ! ((n * K + k) div gs))" if "k < K" for k
  proof -
    have 1: "(n * K + k) div gs = n * G + k div gs"
    proof -
      have "n * K + k = (n * G) * gs + k" using K by (simp add: mult.assoc)
      then show ?thesis using gs0 by (simp only: div_add_mult)
    qed
    have "n * K + k = (n * (K div pf)) * pf + k" using Kpf' by (simp add: mult.assoc)
    then have 2: "(n * K + k) div pf = n * (K div pf) + k div pf"
      and 3: "(n * K + k) mod pf = k mod pf"
      using pf by (simp_all only: div_add_mult mod_add_mult)
    show ?thesis
      unfolding deq_def code_at_def pf_def[symmetric] bpp_def[symmetric] 1 2 3
      by (simp add: algebra_simps)
  qed
  have "for_step gs K 0 (qmm_t_group cast bits gs x w scales biases)
          (0, m * K, n * (K div pf * bpp), n * G, n * G) =
        (qmm_t_group cast bits gs x w scales biases ^^ G) (0, m * K, n * (K div pf * bpp), n * G, n * G)"
    using for_step_dvd[OF gs0 assms(3)] by (simp add: G_def)
  also have "\<dots> = (fold (\<lambda>k s. s + x ! (m * K + k) *
              deq cast bits w (n * (K div pf * bpp)) (scales ! (n * G + k div gs)) (biases ! (n * G + k div gs)) k)
        [0..<K] 0,
      m * K + K, n * (K div pf * bpp) + G * (gs div pf * bpp), n * G + G, n * G + G)"
    by (simp add: qmm_t_groups[OF assms(1,2)] K pf_def bpp_def)
  also have "fold (\<lambda>k s. s + x ! (m * K + k) *
              deq cast bits w (n * (K div pf * bpp)) (scales ! (n * G + k div gs)) (biases ! (n * G + k div gs)) k)
        [0..<K] 0 = qmm_t_val cast bits gs x w scales biases K m n"
    unfolding qmm_t_val_def by (intro fold_cong) (auto simp: term_eq)
  finally have loop: "for_step gs K 0 (qmm_t_group cast bits gs x w scales biases)
          (0, m * K, n * (K div pf * bpp), n * G, n * G) =
        (qmm_t_val cast bits gs x w scales biases K m n,
         m * K + K, n * (K div pf * bpp) + G * (gs div pf * bpp), n * G + G, n * G + G)" .
  have "n * (K div pf * bpp) + G * (gs div pf * bpp) = Suc n * (K div pf * bpp)"
    unfolding Kpf by (simp add: mult.assoc)
  then show ?thesis
    unfolding qmm_t_col_def pf_def[symmetric] bpp_def[symmetric] G_def[symmetric]
    by (simp add: loop)
qed

text \<open>Loops that store into consecutive elements\<close>

lemma length_fold_rmw [simp]:
  "length (fold (\<lambda>t res. res[r + t := h t res]) [0..<n] res) = length res"
  by (induction n) simp_all

lemma fold_rmw_other:
  "j < r \<or> r + n \<le> j \<Longrightarrow>
   fold (\<lambda>t res. res[r + t := h t res]) [0..<n] res ! j = res ! j"
  by (induction n) auto

lemma fold_rmw_nth:
  assumes "i < n" "r + n \<le> length res"
  shows "fold (\<lambda>t res. res[r + t := h t (res ! (r + t))]) [0..<n] res ! (r + i) = h i (res ! (r + i))"
  using assms
proof (induction n)
  case 0
  then show ?case by simp
next
  case (Suc n)
  let ?U = "fold (\<lambda>t res. res[r + t := h t (res ! (r + t))]) [0..<n] res"
  show ?case
  proof (cases "i = n")
    case True
    have "?U ! (r + n) = res ! (r + n)"
      using fold_rmw_other[of "r + n" r n "\<lambda>t res. h t (res ! (r + t))" res] by simp
    then show ?thesis using True Suc.prems by simp
  next
    case False
    then have "i < n" using Suc.prems by simp
    then show ?thesis using Suc by simp
  qed
qed

lemma fold_store_nth:
  assumes "i < n" "r + n \<le> length res"
  shows "fold (\<lambda>t res. res[r + t := v t]) [0..<n] res ! (r + i) = v i"
  using fold_rmw_nth[OF assms, of "\<lambda>t _. v t"] by simp

lemma fold_store_all_nth:
  assumes "i < n" "n \<le> length res"
  shows "fold (\<lambda>t res. res[t := v t]) [0..<n] res ! i = v i"
  using fold_store_nth[of i n 0 res v] assms by simp

lemma fold_store_all_other:
  "n \<le> j \<Longrightarrow> fold (\<lambda>t res. res[t := v t]) [0..<n] res ! j = res ! j"
  using fold_rmw_other[of j 0 n "\<lambda>t res. v t" res] by simp

lemma length_fold_store_all [simp]:
  "length (fold (\<lambda>t res. res[t := v t]) [0..<n] res) = length res"
  using length_fold_rmw[of 0 "\<lambda>t res. v t" n res] by simp

lemma fold_store_all_map:
  assumes "length res = n"
  shows "fold (\<lambda>t res. res[t := v t]) [0..<n] res = map v [0..<n]"
  using assms by (intro nth_equalityI) (simp_all add: fold_store_all_nth)

lemma fold_store_rows:
  assumes "0 < N \<or> M = 0"
  shows "fold (\<lambda>m res. fold (\<lambda>n res. res[m * N + n := v m n]) [0..<N] res) [0..<M] res =
         fold (\<lambda>t res. res[t := v (t div N) (t mod N)]) [0..<M * N] res"
proof -
  have "fold (\<lambda>m res. fold (\<lambda>n res. res[m * N + n := v m n]) [0..<N] res) [0..<M] res =
        fold (\<lambda>m res. fold (\<lambda>n res. res[m * N + n := v ((m * N + n) div N) ((m * N + n) mod N)])
           [0..<N] res) [0..<M] res"
    by (intro fold_cong refl ext) auto
  also have "\<dots> = fold (\<lambda>t res. res[t := v (t div N) (t mod N)]) [0..<M * N] res"
    by (rule fold_nested[of "\<lambda>t res. res[t := v (t div N) (t mod N)]" N M res])
  finally show ?thesis .
qed

text \<open>\<^verbatim>\<open>_qmm_t\<close> as one loop over the output elements\<close>

lemma qmm_t_cols:
  assumes "bits \<in> {2, 3, 4, 5, 6, 8}" "gs \<in> {32, 64, 128}" "gs dvd K"
  shows "fold (\<lambda>n. qmm_t_col cast bits gs x w scales biases K (m * K)) [0..<n] (result, r, 0, 0, 0) =
     (fold (\<lambda>j res. res[r + j := qmm_t_val cast bits gs x w scales biases K m j]) [0..<n] result,
      r + n, n * (K div get_pack_factor bits 8 * get_bytes_per_pack bits 8),
      n * (K div gs), n * (K div gs))"
proof (induction n)
  case 0
  then show ?case by simp
next
  case (Suc n)
  show ?case
    using qmm_t_col_eq[OF assms, of cast x w scales biases m _ "r + n" n]
    by (simp add: Suc del: mult_Suc)
qed

lemma qmm_t_row_eq:
  assumes "bits \<in> {2, 3, 4, 5, 6, 8}" "gs \<in> {32, 64, 128}" "gs dvd K"
  shows "qmm_t_row cast bits gs x w scales biases N K (result, r, m * K) =
     (fold (\<lambda>j res. res[r + j := qmm_t_val cast bits gs x w scales biases K m j]) [0..<N] result,
      r + N, Suc m * K)"
  by (simp add: qmm_t_row_def qmm_t_cols[OF assms])

lemma qmm_t_rows:
  assumes "bits \<in> {2, 3, 4, 5, 6, 8}" "gs \<in> {32, 64, 128}" "gs dvd K"
  shows "fold (\<lambda>m. qmm_t_row cast bits gs x w scales biases N K) [0..<M] (result, 0, 0) =
     (fold (\<lambda>m res. fold (\<lambda>j res. res[m * N + j := qmm_t_val cast bits gs x w scales biases K m j])
         [0..<N] res) [0..<M] result,
      M * N, M * K)"
proof (induction M)
  case 0
  then show ?case by simp
next
  case (Suc M)
  show ?case
    using qmm_t_row_eq[OF assms, of cast x w scales biases N _ "M * N" M]
    by (simp add: Suc del: mult_Suc) (simp add: add.commute)
qed

lemma qmm_t_eq:
  assumes "bits \<in> {2, 3, 4, 5, 6, 8}" "gs \<in> {32, 64, 128}" "gs dvd K"
  shows "qmm_t cast bits gs result x w scales biases M N K =
     fold (\<lambda>t res. res[t := qmm_t_val cast bits gs x (bytes_of_words w) scales biases K (t div N) (t mod N)])
       [0..<M * N] result"
proof (cases "0 < N \<or> M = 0")
  case True
  then show ?thesis
    by (simp add: qmm_t_def qmm_t_rows[OF assms] fold_store_rows)
next
  case False
  then have N: "N = 0" by simp
  have "fold (\<lambda>m res. res) [0..<M] result = result"
    by (induction M) simp_all
  then show ?thesis
    using qmm_t_rows[OF assms, of cast x "bytes_of_words w" scales biases N M result]
    unfolding qmm_t_def N by simp
qed

lemma qmm_pack_eq:
  assumes "bits \<in> {2, 3, 4, 5, 6, 8}"
  shows "qmm_pack cast bits xi w scale bias (result, rl, wl) =
     (fold (\<lambda>p res. res[rl + p := res ! (rl + p) + xi * (scale * cast (pack_vals bits w wl ! p) + bias)])
        [0..<get_pack_factor bits 8] result,
      rl + get_pack_factor bits 8, wl + get_bytes_per_pack bits 8)"
proof (cases "bits = 3 \<or> bits = 5 \<or> bits = 6")
  case True
  have len: "length (extract_bits_int bits (drop wl w)) = get_pack_factor bits 8"
    using length_pack_vals[OF assms, of w wl] True by (simp add: pack_vals_def)
  have "fold (\<lambda>p (result, result_local).
           (result[result_local := result ! result_local +
               xi * (scale * extract_bits cast bits (drop wl w) ! p + bias)], result_local + 1))
          [0..<get_pack_factor bits 8] (result, rl) =
        fold (\<lambda>p (s, c). (s[c := s ! c + xi * (scale * cast (pack_vals bits w wl ! p) + bias)], c + 1))
          [0..<get_pack_factor bits 8] (result, rl)"
    using True len by (intro fold_cong) (auto simp: extract_bits_def pack_vals_def)
  also have "\<dots> = (fold (\<lambda>p res. res[rl + p := res ! (rl + p) + xi * (scale * cast (pack_vals bits w wl ! p) + bias)])
          [0..<get_pack_factor bits 8] result, rl + get_pack_factor bits 8)"
    using fold_counting[of "\<lambda>p s c. s[c := s ! c + xi * (scale * cast (pack_vals bits w wl ! p) + bias)]"
        1 "get_pack_factor bits 8" result rl]
    by simp
  finally show ?thesis using True by (simp add: qmm_pack_def Let_def)
next
  case False
  then have p2: "bits = 2 \<or> bits = 4 \<or> bits = 8" using assms by auto
  have "shift_mask_loop bits
          (\<lambda>p (result, result_local) v.
              (result[result_local := result ! result_local + xi * (scale * cast v + bias)],
               result_local + 1))
          (w ! wl) (result, rl) =
        fold (\<lambda>p (s, c). (s[c := s ! c + xi * (scale * cast (unpack_byte bits (w ! wl) ! p) + bias)], c + 1))
          [0..<get_pack_factor bits 8] (result, rl)"
    by (simp add: shift_mask_loop_unpack split_def)
  also have "\<dots> = (fold (\<lambda>p res. res[rl + p := res ! (rl + p) +
            xi * (scale * cast (unpack_byte bits (w ! wl) ! p) + bias)])
          [0..<get_pack_factor bits 8] result, rl + get_pack_factor bits 8)"
    using fold_counting[of "\<lambda>p s c. s[c := s ! c + xi * (scale * cast (unpack_byte bits (w ! wl) ! p) + bias)]"
        1 "get_pack_factor bits 8" result rl]
    by simp
  finally show ?thesis
    using False by (simp add: qmm_pack_def Let_def pack_vals_def bytes_per_pack_pow2[OF p2])
qed

lemma qmm_packs:
  assumes "bits \<in> {2, 3, 4, 5, 6, 8}"
  shows "fold (\<lambda>ng. qmm_pack cast bits xi w scale bias) [0..<n] (result, rl, wl) =
     (fold (\<lambda>t res. res[rl + t := res ! (rl + t) + xi * deq cast bits w wl scale bias t])
        [0..<n * get_pack_factor bits 8] result,
      rl + n * get_pack_factor bits 8, wl + n * get_bytes_per_pack bits 8)"
proof (induction n)
  case 0
  then show ?case by simp
next
  case (Suc n)
  define pf where "pf = get_pack_factor bits 8"
  define bpp where "bpp = get_bytes_per_pack bits 8"
  define f where "f = (\<lambda>t res. res[rl + t := res ! (rl + t) + xi * deq cast bits w wl scale bias t])"
  have pf: "0 < pf" using pack_factor_pos[OF assms] by (simp add: pf_def)
  have step: "f (n * pf + p) res =
      res[rl + n * pf + p := res ! (rl + n * pf + p) +
         xi * (scale * cast (pack_vals bits w (wl + n * bpp) ! p) + bias)]"
    if "p < pf" for p res
    using that pf by (simp add: f_def deq_def pf_def[symmetric] bpp_def[symmetric] add.assoc)
  have "fold (\<lambda>ng. qmm_pack cast bits xi w scale bias) [0..<Suc n] (result, rl, wl) =
      qmm_pack cast bits xi w scale bias (fold f [0..<n * pf] result, rl + n * pf, wl + n * bpp)"
    using Suc by (simp add: f_def pf_def bpp_def)
  also have "\<dots> = (fold (\<lambda>p res. res[rl + n * pf + p := res ! (rl + n * pf + p) +
         xi * (scale * cast (pack_vals bits w (wl + n * bpp) ! p) + bias)]) [0..<pf]
           (fold f [0..<n * pf] result),
      rl + n * pf + pf, wl + n * bpp + bpp)"
    by (simp add: qmm_pack_eq[OF assms] pf_def bpp_def)
  also have "fold (\<lambda>p res. res[rl + n * pf + p := res ! (rl + n * pf + p) +
         xi * (scale * cast (pack_vals bits w (wl + n * bpp) ! p) + bias)]) [0..<pf]
           (fold f [0..<n * pf] result) =
      fold (\<lambda>p. f (n * pf + p)) [0..<pf] (fold f [0..<n * pf] result)"
    by (intro fold_cong) (auto simp: step)
  also have "\<dots> = fold f [0..<n * pf + pf] result"
    by (simp add: fold_upt_add)
  finally show ?case
    by (simp add: f_def pf_def bpp_def add.commute add.assoc)
qed

lemma qmm_group_eq:
  assumes "bits \<in> {2, 3, 4, 5, 6, 8}" "gs \<in> {32, 64, 128}"
  shows "qmm_group cast bits gs xi w scales biases (result, rl, wl, sl, bl) =
     (fold (\<lambda>t res. res[rl + t := res ! (rl + t) + xi * deq cast bits w wl (scales ! sl) (biases ! bl) t])
        [0..<gs] result,
      rl + gs, wl + gs div get_pack_factor bits 8 * get_bytes_per_pack bits 8, sl + 1, bl + 1)"
  using pack_factor_dvd_group[OF assms]
  by (simp add: qmm_group_def Let_def qmm_packs[OF assms(1)])

lemma qmm_groups:
  assumes "bits \<in> {2, 3, 4, 5, 6, 8}" "gs \<in> {32, 64, 128}"
  shows "(qmm_group cast bits gs xi w scales biases ^^ g) (result, rl, wl, sl, bl) =
     (fold (\<lambda>n res. res[rl + n := res ! (rl + n) + xi *
              deq cast bits w wl (scales ! (sl + n div gs)) (biases ! (bl + n div gs)) n])
        [0..<g * gs] result,
      rl + g * gs, wl + g * (gs div get_pack_factor bits 8 * get_bytes_per_pack bits 8),
      sl + g, bl + g)"
proof (induction g)
  case 0
  then show ?case by simp
next
  case (Suc g)
  define pf where "pf = get_pack_factor bits 8"
  define bpp where "bpp = get_bytes_per_pack bits 8"
  define pig where "pig = gs div pf"
  define f where "f = (\<lambda>n res. res[rl + n := res ! (rl + n) + xi *
              deq cast bits w wl (scales ! (sl + n div gs)) (biases ! (bl + n div gs)) n])"
  have pf: "0 < pf" using pack_factor_pos[OF assms(1)] by (simp add: pf_def)
  have gs: "pig * pf = gs" using pack_factor_dvd_group[OF assms] by (simp add: pig_def pf_def)
  have gs0: "0 < gs" using assms(2) by auto
  have step: "f (g * gs + t) res =
      res[rl + g * gs + t := res ! (rl + g * gs + t) + xi *
        deq cast bits w (wl + g * (pig * bpp)) (scales ! (sl + g)) (biases ! (bl + g)) t]"
    if "t < gs" for t res
  proof -
    have e: "g * pig * pf + t = g * gs + t" using gs by (simp add: mult.assoc)
    have "deq cast bits w (wl + (g * pig) * bpp) (scales ! (sl + g)) (biases ! (bl + g)) t =
          deq cast bits w wl (scales ! (sl + g)) (biases ! (bl + g)) (g * pig * pf + t)"
      unfolding bpp_def pf_def by (rule deq_shift) (use pf in \<open>simp add: pf_def\<close>)
    then have "deq cast bits w (wl + g * (pig * bpp)) (scales ! (sl + g)) (biases ! (bl + g)) t =
          deq cast bits w wl (scales ! (sl + g)) (biases ! (bl + g)) (g * gs + t)"
      unfolding e by (simp only: mult.assoc)
    moreover have "(g * gs + t) div gs = g" using that gs0 by simp
    ultimately show ?thesis by (simp add: f_def add.assoc)
  qed
  have "(qmm_group cast bits gs xi w scales biases ^^ Suc g) (result, rl, wl, sl, bl) =
      qmm_group cast bits gs xi w scales biases
        (fold f [0..<g * gs] result, rl + g * gs, wl + g * (pig * bpp), sl + g, bl + g)"
    using Suc by (simp add: f_def pf_def bpp_def pig_def)
  also have "\<dots> = (fold (\<lambda>t res. res[rl + g * gs + t := res ! (rl + g * gs + t) + xi *
        deq cast bits w (wl + g * (pig * bpp)) (scales ! (sl + g)) (biases ! (bl + g)) t])
          [0..<gs] (fold f [0..<g * gs] result),
      rl + g * gs + gs, wl + g * (pig * bpp) + pig * bpp, sl + g + 1, bl + g + 1)"
    by (simp add: qmm_group_eq[OF assms] pf_def bpp_def pig_def)
  also have "fold (\<lambda>t res. res[rl + g * gs + t := res ! (rl + g * gs + t) + xi *
        deq cast bits w (wl + g * (pig * bpp)) (scales ! (sl + g)) (biases ! (bl + g)) t])
          [0..<gs] (fold f [0..<g * gs] result) =
      fold (\<lambda>t. f (g * gs + t)) [0..<gs] (fold f [0..<g * gs] result)"
    by (intro fold_cong) (auto simp: step)
  also have "\<dots> = fold f [0..<g * gs + gs] result"
    by (simp add: fold_upt_add)
  finally show ?case
    by (simp add: f_def pf_def bpp_def pig_def add.commute add.assoc)
qed

lemma qmm_k_eq:
  assumes "bits \<in> {2, 3, 4, 5, 6, 8}" "gs \<in> {32, 64, 128}" "gs dvd N"
  shows "qmm_k cast bits gs x w scales biases N r
           (result, xp, k * (N div get_pack_factor bits 8 * get_bytes_per_pack bits 8),
            k * (N div gs), k * (N div gs)) =
     (fold (\<lambda>n res. res[r + n := res ! (r + n) + x ! xp *
          (scales ! ((k * N + n) div gs) * cast (code_at bits w (k * N + n))
             + biases ! ((k * N + n) div gs))]) [0..<N] result,
      xp + 1,
      Suc k * (N div get_pack_factor bits 8 * get_bytes_per_pack bits 8),
      Suc k * (N div gs), Suc k * (N div gs))"
proof -
  define pf where "pf = get_pack_factor bits 8"
  define bpp where "bpp = get_bytes_per_pack bits 8"
  define G where "G = N div gs"
  have pf: "0 < pf" using pack_factor_pos[OF assms(1)] by (simp add: pf_def)
  have gs0: "0 < gs" using assms(2) by auto
  have N: "G * gs = N" using assms(3) by (simp add: G_def)
  have gspf: "gs div pf * pf = gs" using pack_factor_dvd_group[OF assms(1,2)] by (simp add: pf_def)
  have Npf: "N div pf = G * (gs div pf)"
  proof -
    have "N = (G * (gs div pf)) * pf" using N gspf by (simp add: mult.assoc)
    then show ?thesis using pf by simp
  qed
  have Npf': "N div pf * pf = N" using Npf N gspf by (simp add: mult.assoc)
  have term_eq: "deq cast bits w (k * (N div pf * bpp)) (scales ! (k * G + n div gs)) (biases ! (k * G + n div gs)) n =
        (scales ! ((k * N + n) div gs) * cast (code_at bits w (k * N + n))
         + biases ! ((k * N + n) div gs))" if "n < N" for n
  proof -
    have 1: "(k * N + n) div gs = k * G + n div gs"
    proof -
      have "k * N + n = (k * G) * gs + n" using N by (simp add: mult.assoc)
      then show ?thesis using gs0 by (simp only: div_add_mult)
    qed
    have "k * N + n = (k * (N div pf)) * pf + n" using Npf' by (simp add: mult.assoc)
    then have 2: "(k * N + n) div pf = k * (N div pf) + n div pf"
      and 3: "(k * N + n) mod pf = n mod pf"
      using pf by (simp_all only: div_add_mult mod_add_mult)
    show ?thesis
      unfolding deq_def code_at_def pf_def[symmetric] bpp_def[symmetric] 1 2 3
      by (simp add: algebra_simps)
  qed
  have "for_step gs N 0 (qmm_group cast bits gs (x ! xp) w scales biases)
          (result, r, k * (N div pf * bpp), k * G, k * G) =
        (qmm_group cast bits gs (x ! xp) w scales biases ^^ G) (result, r, k * (N div pf * bpp), k * G, k * G)"
    using for_step_dvd[OF gs0 assms(3)] by (simp add: G_def)
  also have "\<dots> = (fold (\<lambda>n res. res[r + n := res ! (r + n) + x ! xp *
              deq cast bits w (k * (N div pf * bpp)) (scales ! (k * G + n div gs)) (biases ! (k * G + n div gs)) n])
        [0..<N] result,
      r + N, k * (N div pf * bpp) + G * (gs div pf * bpp), k * G + G, k * G + G)"
    by (simp add: qmm_groups[OF assms(1,2)] N pf_def bpp_def)
  also have "fold (\<lambda>n res. res[r + n := res ! (r + n) + x ! xp *
              deq cast bits w (k * (N div pf * bpp)) (scales ! (k * G + n div gs)) (biases ! (k * G + n div gs)) n])
        [0..<N] result =
      fold (\<lambda>n res. res[r + n := res ! (r + n) + x ! xp *
          (scales ! ((k * N + n) div gs) * cast (code_at bits w (k * N + n))
             + biases ! ((k * N + n) div gs))]) [0..<N] result"
    by (intro fold_cong) (auto simp: term_eq)
  finally have loop: "for_step gs N 0 (qmm_group cast bits gs (x ! xp) w scales biases)
          (result, r, k * (N div pf * bpp), k * G, k * G) =
        (fold (\<lambda>n res. res[r + n := res ! (r + n) + x ! xp *
          (scales ! ((k * N + n) div gs) * cast (code_at bits w (k * N + n))
             + biases ! ((k * N + n) div gs))]) [0..<N] result,
         r + N, k * (N div pf * bpp) + G * (gs div pf * bpp), k * G + G, k * G + G)" .
  have "k * (N div pf * bpp) + G * (gs div pf * bpp) = Suc k * (N div pf * bpp)"
    unfolding Npf by (simp add: mult.assoc)
  then show ?thesis
    unfolding qmm_k_def pf_def[symmetric] bpp_def[symmetric] G_def[symmetric]
    by (simp add: loop)
qed

lemma qmm_ks:
  assumes "bits \<in> {2, 3, 4, 5, 6, 8}" "gs \<in> {32, 64, 128}" "gs dvd N"
  shows "fold (\<lambda>k. qmm_k cast bits gs x w scales biases N r) [0..<K] (result, xp, 0, 0, 0) =
     (fold (\<lambda>k res. fold (\<lambda>n res. res[r + n := res ! (r + n) + x ! (xp + k) *
          (scales ! ((k * N + n) div gs) * cast (code_at bits w (k * N + n))
             + biases ! ((k * N + n) div gs))]) [0..<N] res) [0..<K] result,
      xp + K, K * (N div get_pack_factor bits 8 * get_bytes_per_pack bits 8),
      K * (N div gs), K * (N div gs))"
proof (induction K)
  case 0
  then show ?case by simp
next
  case (Suc K)
  show ?case
    using qmm_k_eq[OF assms, of cast x w scales biases r _ "xp + K" K]
    by (simp add: Suc del: mult_Suc)
qed

text \<open>Repeated accumulation into a row\<close>

lemma acc_rows:
  fixes c :: "nat \<Rightarrow> nat \<Rightarrow> 'a::plus"
  assumes "r + N \<le> length res"
  shows "length (fold (\<lambda>k res. fold (\<lambda>n res. res[r + n := res ! (r + n) + c k n]) [0..<N] res) [0..<K] res)
           = length res"
    and "j < r \<or> r + N \<le> j \<Longrightarrow>
         fold (\<lambda>k res. fold (\<lambda>n res. res[r + n := res ! (r + n) + c k n]) [0..<N] res) [0..<K] res ! j
           = res ! j"
    and "n < N \<Longrightarrow>
         fold (\<lambda>k res. fold (\<lambda>n res. res[r + n := res ! (r + n) + c k n]) [0..<N] res) [0..<K] res ! (r + n)
           = fold (\<lambda>k s. s + c k n) [0..<K] (res ! (r + n))"
proof -
  let ?A = "\<lambda>K. fold (\<lambda>k res. fold (\<lambda>n res. res[r + n := res ! (r + n) + c k n]) [0..<N] res) [0..<K] res"
  show len: "length (?A K) = length res" for K
    by (induction K) simp_all
  show "j < r \<or> r + N \<le> j \<Longrightarrow> ?A K ! j = res ! j"
    by (induction K) (simp_all add: fold_rmw_other)
  show "n < N \<Longrightarrow> ?A K ! (r + n) = fold (\<lambda>k s. s + c k n) [0..<K] (res ! (r + n))"
  proof (induction K)
    case 0
    then show ?case by simp
  next
    case (Suc K)
    have "?A (Suc K) ! (r + n) =
        fold (\<lambda>n res. res[r + n := res ! (r + n) + c K n]) [0..<N] (?A K) ! (r + n)"
      by simp
    also have "\<dots> = ?A K ! (r + n) + c K n"
      using fold_rmw_nth[of n N r "?A K" "\<lambda>n old. old + c K n"] Suc.prems assms len[of K]
      by simp
    finally show ?case using Suc by simp
  qed
qed

lemma qmm_row_eq:
  assumes "bits \<in> {2, 3, 4, 5, 6, 8}" "gs \<in> {32, 64, 128}" "gs dvd N"
    and "r + N \<le> length result"
  shows "qmm_row cast bits gs x w scales biases N K (result, r, m * K) =
     (fold (\<lambda>n res. res[r + n := qmm_val cast bits gs x w scales biases N K m n]) [0..<N] result,
      r + N, Suc m * K)"
proof -
  define c where "c = (\<lambda>k n. x ! (m * K + k) *
          (scales ! ((k * N + n) div gs) * cast (code_at bits w (k * N + n))
             + biases ! ((k * N + n) div gs)))"
  define filled where "filled = fold (\<lambda>n res. res[r + n := 0]) [0..<N] result"
  define A where "A = fold (\<lambda>k res. fold (\<lambda>n res. res[r + n := res ! (r + n) + c k n]) [0..<N] res)
      [0..<K] filled"
  define B where "B = fold (\<lambda>n res. res[r + n := qmm_val cast bits gs x w scales biases N K m n])
      [0..<N] result"
  have lf: "length filled = length result" by (simp add: filled_def)
  have rN: "r + N \<le> length filled" using assms(4) lf by simp
  have "A = B"
  proof (rule nth_equalityI)
    show "length A = length B"
      using acc_rows(1)[OF rN, of c K] by (simp add: A_def B_def lf)
  next
    fix j assume "j < length A"
    show "A ! j = B ! j"
    proof (cases "r \<le> j \<and> j < r + N")
      case True
      then obtain n where n: "j = r + n" "n < N"
        by (metis add_diff_inverse_nat less_diff_conv2 not_less add.commute)
      have "A ! (r + n) = fold (\<lambda>k s. s + c k n) [0..<K] (filled ! (r + n))"
        unfolding A_def by (rule acc_rows(3)[OF rN n(2)])
      also have "filled ! (r + n) = 0"
        unfolding filled_def using fold_store_nth[OF n(2) assms(4), of "\<lambda>_. 0"] by simp
      also have "fold (\<lambda>k s. s + c k n) [0..<K] 0 = qmm_val cast bits gs x w scales biases N K m n"
        by (simp add: qmm_val_def c_def)
      also have "\<dots> = B ! (r + n)"
        unfolding B_def using fold_store_nth[OF n(2) assms(4)] by simp
      finally show ?thesis using n(1) by simp
    next
      case False
      then have o: "j < r \<or> r + N \<le> j" by auto
      have "A ! j = filled ! j"
        unfolding A_def by (rule acc_rows(2)[OF rN o])
      also have "\<dots> = result ! j"
        unfolding filled_def using o by (simp add: fold_rmw_other)
      also have "\<dots> = B ! j"
        unfolding B_def using o by (simp add: fold_rmw_other)
      finally show ?thesis .
    qed
  qed
  then show ?thesis
    unfolding A_def B_def c_def filled_def
    by (simp add: qmm_row_def qmm_ks[OF assms(1-3)] Let_def)
qed

lemma qmm_rows:
  assumes "bits \<in> {2, 3, 4, 5, 6, 8}" "gs \<in> {32, 64, 128}" "gs dvd N"
    and "M * N \<le> length result"
  shows "fold (\<lambda>m. qmm_row cast bits gs x w scales biases N K) [0..<M] (result, 0, 0) =
     (fold (\<lambda>m res. fold (\<lambda>n res. res[m * N + n := qmm_val cast bits gs x w scales biases N K m n])
         [0..<N] res) [0..<M] result,
      M * N, M * K)"
  using assms(4)
proof (induction M)
  case 0
  then show ?case by simp
next
  case (Suc M)
  let ?R = "fold (\<lambda>m res. fold (\<lambda>n res. res[m * N + n := qmm_val cast bits gs x w scales biases N K m n])
         [0..<N] res) [0..<M] result"
  have len: "length ?R = length result"
    by (induction M) simp_all
  have "M * N + N \<le> length ?R" using Suc.prems len by (simp add: add.commute)
  from qmm_row_eq[OF assms(1-3) this, of cast x w scales biases K M]
  show ?case using Suc by (simp del: mult_Suc) (simp add: add.commute)
qed

lemma qmm_eq:
  assumes "bits \<in> {2, 3, 4, 5, 6, 8}" "gs \<in> {32, 64, 128}" "gs dvd N"
    and "M * N \<le> length result"
  shows "qmm cast bits gs result x w scales biases M N K =
     fold (\<lambda>t res. res[t := qmm_val cast bits gs x (bytes_of_words w) scales biases N K (t div N) (t mod N)])
       [0..<M * N] result"
proof (cases "0 < N \<or> M = 0")
  case True
  then show ?thesis
    by (simp add: qmm_def qmm_rows[OF assms] fold_store_rows)
next
  case False
  then have N: "N = 0" by simp
  have "fold (\<lambda>m res. res) [0..<M] result = result"
    by (induction M) simp_all
  then show ?thesis
    using qmm_rows[OF assms, of cast x "bytes_of_words w" scales biases K]
    unfolding qmm_def N by simp
qed

lemma length_store_vals [simp]: "length (store_vals r vs result) = length result"
  by (simp add: store_vals_def)

lemma store_vals_other:
  "j < r \<or> r + length vs \<le> j \<Longrightarrow> store_vals r vs result ! j = result ! j"
  by (simp add: store_vals_def fold_rmw_other)

lemma store_vals_nth:
  "i < length vs \<Longrightarrow> r + length vs \<le> length result \<Longrightarrow> store_vals r vs result ! (r + i) = vs ! i"
  unfolding store_vals_def by (rule fold_store_nth)

lemma store_vals_Nil [simp]: "store_vals r [] result = result"
  by (simp add: store_vals_def)

lemma store_vals_single [simp]: "store_vals r [v] result = result[r := v]"
  by (simp add: store_vals_def)

lemma store_vals_append:
  "store_vals r (vs @ ws) result = store_vals (r + length vs) ws (store_vals r vs result)"
proof -
  have "fold (\<lambda>j res. res[r + j := (vs @ ws) ! j]) [0..<length vs + length ws] result =
        fold (\<lambda>j res. res[r + (length vs + j) := (vs @ ws) ! (length vs + j)]) [0..<length ws]
          (fold (\<lambda>j res. res[r + j := (vs @ ws) ! j]) [0..<length vs] result)"
    by (rule fold_upt_add)
  also have "fold (\<lambda>j res. res[r + j := (vs @ ws) ! j]) [0..<length vs] result =
        fold (\<lambda>j res. res[r + j := vs ! j]) [0..<length vs] result"
    by (intro fold_cong) (auto simp: nth_append)
  finally show ?thesis by (simp add: store_vals_def add.assoc)
qed

lemma store_vals_all:
  assumes "length result = length vs"
  shows "store_vals 0 vs result = vs"
  using assms by (intro nth_equalityI) (simp_all add: store_vals_nth[of _ vs 0 result, simplified])

lemma fold_store_all_store_vals:
  "fold (\<lambda>t res. res[t := v t]) [0..<n] result = store_vals 0 (map v [0..<n]) result"
proof -
  have "fold (\<lambda>t res. res[t := v t]) [0..<n] result =
        fold (\<lambda>t res. res[t := map v [0..<n] ! t]) [0..<n] result"
    by (intro fold_cong) auto
  then show ?thesis by (simp add: store_vals_def)
qed

lemma try_step_Inr [simp]: "try_step body (Inr s) = body s"
  by (simp add: try_step_def)

lemma try_step_Inl [simp]: "try_step body (Inl e) = Inl e"
  by (simp add: try_step_def)

text \<open>A loop whose body stores the values that a step emits\<close>

lemma emit_fold:
  assumes "\<And>result r p. body (result, r, p) =
     (case step p of
        (vs, Inl e) \<Rightarrow> Inl (e, store_vals r vs result)
      | (vs, Inr p') \<Rightarrow> Inr (store_vals r vs result, r + length vs, p'))"
  shows "fold (\<lambda>i. try_step body) [0..<n] (Inr (result, r, p)) =
     (case emit_loop step n p of
        (vs, Inl e) \<Rightarrow> Inl (e, store_vals r vs result)
      | (vs, Inr p') \<Rightarrow> Inr (store_vals r vs result, r + length vs, p'))"
proof (induction n)
  case 0
  then show ?case by simp
next
  case (Suc n)
  show ?case
  proof (cases "emit_loop step n p")
    case (Pair vs st)
    show ?thesis
    proof (cases st)
      case (Inl e)
      then show ?thesis using Suc Pair by simp
    next
      case (Inr p')
      then show ?thesis using Suc Pair
        by (cases "step p'") (auto simp: assms store_vals_append add.assoc split: sum.splits)
    qed
  qed
qed

lemma emit_loop_length:
  assumes "\<And>p vs p'. step p = (vs, Inr p') \<Longrightarrow> length vs = c"
    and "emit_loop step n p = (vs, Inr p')"
  shows "length vs = n * c"
  using assms(2)
proof (induction n arbitrary: vs p')
  case 0
  then show ?case by simp
next
  case (Suc n)
  then show ?case
    by (auto split: prod.splits sum.splits dest!: assms(1))
qed

lemma emit_loop_ok:
  assumes "\<And>p. \<exists>vs p'. step p = (vs, Inr p')"
  shows "\<exists>vs p'. emit_loop step n p = (vs, Inr p')"
proof (induction n)
  case 0
  then show ?case by simp
next
  case (Suc n)
  then obtain vs p' where "emit_loop step n p = (vs, Inr p')" by blast
  moreover obtain ws p'' where "step p' = (ws, Inr p'')" using assms by blast
  ultimately show ?case by simp
qed

lemma qmm_t_simd_col_shape:
  "qmm_t_simd_col T bits gs S x w scales biases K xb (result, r, p) =
     (case simd_col_val T bits gs S x w scales biases K xb p of
        (vs, Inl e) \<Rightarrow> Inl (e, store_vals r vs result)
      | (vs, Inr p') \<Rightarrow> Inr (store_vals r vs result, r + length vs, p'))"
  by (cases p) (auto simp: qmm_t_simd_col_def simd_col_val_def split: sum.splits)

lemma qmm_t_simd_row_shape:
  "qmm_t_simd_row T bits gs S x w scales biases N K (result, r, xb) =
     (case simd_row_vals T bits gs S x w scales biases N K xb of
        (vs, Inl e) \<Rightarrow> Inl (e, store_vals r vs result)
      | (vs, Inr xb') \<Rightarrow> Inr (store_vals r vs result, r + length vs, xb'))"
proof -
  have "fold (\<lambda>n. try_step (qmm_t_simd_col T bits gs S x w scales biases K xb)) [0..<N]
          (Inr (result, r, 0, 0, 0)) =
     (case emit_loop (simd_col_val T bits gs S x w scales biases K xb) N (0, 0, 0) of
        (vs, Inl e) \<Rightarrow> Inl (e, store_vals r vs result)
      | (vs, Inr p') \<Rightarrow> Inr (store_vals r vs result, r + length vs, p'))"
    by (rule emit_fold) (rule qmm_t_simd_col_shape)
  then show ?thesis
    by (auto simp: qmm_t_simd_row_def simd_row_vals_def split: prod.splits sum.splits)
qed

lemma qmm_t_simd_shape:
  "qmm_t_simd T bits gs S result x w scales biases M N K =
     (case simd_vals T bits gs S x w scales biases M N K of
        (vs, Inl e) \<Rightarrow> Inl (e, store_vals 0 vs result)
      | (vs, Inr xb) \<Rightarrow> Inr (store_vals 0 vs result))"
proof -
  have "fold (\<lambda>m. try_step (qmm_t_simd_row T bits gs S x w scales biases N K)) [0..<M]
          (Inr (result, 0, 0)) =
     (case emit_loop (simd_row_vals T bits gs S x w scales biases N K) M 0 of
        (vs, Inl e) \<Rightarrow> Inl (e, store_vals 0 vs result)
      | (vs, Inr p') \<Rightarrow> Inr (store_vals 0 vs result, 0 + length vs, p'))"
    by (rule emit_fold) (rule qmm_t_simd_row_shape)
  then show ?thesis
    by (auto simp: qmm_t_simd_def simd_vals_def split: prod.splits sum.splits)
qed

lemma simd_col_val_length:
  "simd_col_val T bits gs S x w scales biases K xb p = (vs, Inr p') \<Longrightarrow> length vs = 1"
  by (cases p) (auto simp: simd_col_val_def split: sum.splits)

lemma simd_row_vals_length:
  assumes "simd_row_vals T bits gs S x w scales biases N K xb = (vs, Inr xb')"
  shows "length vs = N"
proof -
  obtain p where "emit_loop (simd_col_val T bits gs S x w scales biases K xb) N (0, 0, 0) = (vs, Inr p)"
    using assms by (auto simp: simd_row_vals_def split: prod.splits sum.splits)
  from emit_loop_length[OF _ this, of 1] simd_col_val_length show ?thesis
    by fastforce
qed

lemma simd_vals_length:
  assumes "simd_vals T bits gs S x w scales biases M N K = (vs, Inr xb)"
  shows "length vs = M * N"
  using emit_loop_length[OF _ assms[unfolded simd_vals_def], of N] simd_row_vals_length
  by fastforce

text \<open>The supported combinations do not throw\<close>

lemma extract_bits_simd_ok:
  "(bits = 4 \<or> bits = 8) \<and> S = 8 \<Longrightarrow> \<exists>wi. extract_bits_simd bits S w = Inr wi"
  by (auto simp: extract_bits_simd_def Let_def)

lemma for_step_try_ok:
  assumes "\<And>s. \<exists>s'. body s = Inr s'"
  shows "\<exists>s'. for_step step n i (try_step body) (Inr s) = Inr s'"
proof (cases "0 < step")
  case True
  have "\<exists>s'. (try_step body ^^ k) (Inr s) = Inr s'" for k
  proof (induction k)
    case 0
    then show ?case by simp
  next
    case (Suc k)
    then obtain s' where "(try_step body ^^ k) (Inr s) = Inr s'" by blast
    then show ?case using assms[of s'] by simp
  qed
  then show ?thesis by (simp add: for_step_funpow[OF True])
next
  case False
  then show ?thesis by (subst for_step.simps) simp
qed

lemma qmm_t_simd_pack_ok:
  assumes "(bits = 4 \<or> bits = 8) \<and> S = 8"
  shows "\<exists>st'. qmm_t_simd_pack T bits S x w scale bias st = Inr st'"
proof -
  obtain acc xl wl where st: "st = (acc, xl, wl)" by (cases st) auto
  obtain wi where "extract_bits_simd bits S (drop wl w) = Inr wi"
    using extract_bits_simd_ok[OF assms] by blast
  then show ?thesis by (simp add: st qmm_t_simd_pack_def Let_def)
qed

lemma qmm_t_simd_group_ok:
  assumes "(bits = 4 \<or> bits = 8) \<and> S = 8"
  shows "\<exists>st'. qmm_t_simd_group T bits gs S x w scales biases st = Inr st'"
proof -
  obtain acc xl wl sl bl where st: "st = (acc, xl, wl, sl, bl)" by (cases st) auto
  have ok: "\<And>s. \<exists>s'. qmm_t_simd_pack T bits S x w (scales ! sl) (biases ! bl) s = Inr s'"
    by (rule qmm_t_simd_pack_ok[OF assms])
  obtain st' where "for_step (S div (32 div bits)) (gs div (32 div bits)) 0
      (try_step (qmm_t_simd_pack T bits S x w (scales ! sl) (biases ! bl))) (Inr (acc, xl, wl)) = Inr st'"
    using for_step_try_ok[of "qmm_t_simd_pack T bits S x w (scales ! sl) (biases ! bl)", OF ok] by blast
  then show ?thesis
    by (cases st') (simp add: st qmm_t_simd_group_def Let_def)
qed

lemma simd_col_val_ok:
  assumes "(bits = 4 \<or> bits = 8) \<and> S = 8"
  shows "\<exists>vs p'. simd_col_val T bits gs S x w scales biases K xb p = (vs, Inr p')"
proof -
  obtain wl sl bl where p: "p = (wl, sl, bl)" by (cases p) auto
  have ok: "\<And>s. \<exists>s'. qmm_t_simd_group T bits gs S x w scales biases s = Inr s'"
    by (rule qmm_t_simd_group_ok[OF assms])
  obtain st' where "for_step gs K 0 (try_step (qmm_t_simd_group T bits gs S x w scales biases))
      (Inr (replicate S 0, xb, wl, sl, bl)) = Inr st'"
    using for_step_try_ok[of "qmm_t_simd_group T bits gs S x w scales biases", OF ok] by blast
  then show ?thesis
    by (cases st') (simp add: p simd_col_val_def)
qed

lemma simd_row_vals_ok:
  assumes "(bits = 4 \<or> bits = 8) \<and> S = 8"
  shows "\<exists>vs xb'. simd_row_vals T bits gs S x w scales biases N K xb = (vs, Inr xb')"
proof -
  have ok: "\<And>p. \<exists>vs p'. simd_col_val T bits gs S x w scales biases K xb p = (vs, Inr p')"
    by (rule simd_col_val_ok[OF assms])
  obtain vs p' where "emit_loop (simd_col_val T bits gs S x w scales biases K xb) N (0, 0, 0) = (vs, Inr p')"
    using emit_loop_ok[of "simd_col_val T bits gs S x w scales biases K xb", OF ok] by blast
  then show ?thesis by (simp add: simd_row_vals_def)
qed

lemma simd_vals_ok:
  assumes "(bits = 4 \<or> bits = 8) \<and> S = 8"
  shows "\<exists>vs xb. simd_vals T bits gs S x w scales biases M N K = (vs, Inr xb) \<and> length vs = M * N"
proof -
  have ok: "\<And>p. \<exists>vs p'. simd_row_vals T bits gs S x w scales biases N K p = (vs, Inr p')"
    by (rule simd_row_vals_ok[OF assms])
  obtain vs xb where v: "simd_vals T bits gs S x w scales biases M N K = (vs, Inr xb)"
    unfolding simd_vals_def
    using emit_loop_ok[of "simd_row_vals T bits gs S x w scales biases N K", OF ok] by blast
  then show ?thesis using simd_vals_length[OF v] by simp
qed

lemma fold_add_sum:
  fixes f :: "nat \<Rightarrow> 'a::comm_monoid_add"
  shows "fold (\<lambda>k s. s + f k) [0..<K] 0 = (\<Sum>k<K. f k)"
  by (induction K) (simp_all add: add.commute)

lemma qmm_nth:
  assumes "bits \<in> {2, 3, 4, 5, 6, 8}" "gs \<in> {32, 64, 128}" "gs dvd N"
    and "M * N \<le> length result" "m < M" "n < N"
  shows "qmm cast bits gs result x w scales biases M N K ! (m * N + n) =
         qmm_val cast bits gs x (bytes_of_words w) scales biases N K m n"
proof -
  have "m * N + n < M * N"
  proof -
    have "m * N + n < m * N + N" using assms(6) by simp
    also have "\<dots> = Suc m * N" by simp
    also have "\<dots> \<le> M * N" using assms(5) by (intro mult_le_mono1) simp
    finally show ?thesis .
  qed
  then show ?thesis
    using assms(6) by (simp add: qmm_eq[OF assms(1-4)] fold_store_all_nth assms(4))
qed

lemma qmm_t_nth:
  assumes "bits \<in> {2, 3, 4, 5, 6, 8}" "gs \<in> {32, 64, 128}" "gs dvd K"
    and "M * N \<le> length result" "m < M" "n < N"
  shows "qmm_t cast bits gs result x w scales biases M N K ! (m * N + n) =
         qmm_t_val cast bits gs x (bytes_of_words w) scales biases K m n"
proof -
  have "m * N + n < M * N"
  proof -
    have "m * N + n < m * N + N" using assms(6) by simp
    also have "\<dots> = Suc m * N" by simp
    also have "\<dots> \<le> M * N" using assms(5) by (intro mult_le_mono1) simp
    finally show ?thesis .
  qed
  then show ?thesis
    using assms(6) by (simp add: qmm_t_eq[OF assms(1-3)] fold_store_all_nth assms(4))
qed

text \<open>
  Claim C3.  For all \<open>M\<close>, \<open>N\<close>, \<open>K\<close> with the grouped dimension a multiple
  of the group size, the non-transposed kernel \<^verbatim>\<open>_qmm\<close> and the transposed
  kernel \<^verbatim>\<open>_qmm_t\<close> leave in element \<open>(m, n)\<close> of the output the sum over
  \<open>k\<close> of \<open>x[m,k] * (scale * code + bias)\<close>, where \<open>code\<close> is the packed code
  decoded at position \<open>(k, n)\<close> (non-transposed, position \<open>k * N + n\<close> of the
  packed sequence) or \<open>(n, k)\<close> (transposed, position \<open>n * K + k\<close>) and \<open>scale\<close>
  and \<open>bias\<close> are those of the group that contains the position.  The sum is the
  one the kernels compute: the products are added to 0 in the order of \<open>k\<close>,
  with the arithmetic of the element type; where the addition is associative and
  commutative this is the sum \<open>\<Sum>k<K\<close> (lemma \<open>fold_add_sum\<close>).
\<close>

theorem qmm_kernels_sum:
  fixes cast :: "nat \<Rightarrow> 'a::{zero,plus,times}"
  assumes "bits \<in> {2, 3, 4, 5, 6, 8}" and "group_size \<in> {32, 64, 128}"
    and "m < M" and "n < N" and "M * N \<le> length result"
  shows "(group_size dvd N \<longrightarrow>
           qmm cast bits group_size result x w scales biases M N K ! (m * N + n) =
           fold (\<lambda>k s. s + x ! (m * K + k) *
                   (scales ! ((k * N + n) div group_size)
                      * cast (code_at bits (bytes_of_words w) (k * N + n))
                    + biases ! ((k * N + n) div group_size)))
             [0..<K] 0) \<and>
         (group_size dvd K \<longrightarrow>
           qmm_t cast bits group_size result x w scales biases M N K ! (m * N + n) =
           fold (\<lambda>k s. s + x ! (m * K + k) *
                   (scales ! ((n * K + k) div group_size)
                      * cast (code_at bits (bytes_of_words w) (n * K + k))
                    + biases ! ((n * K + k) div group_size)))
             [0..<K] 0)"
  using qmm_nth[OF assms(1,2) _ assms(5,3,4)] qmm_t_nth[OF assms(1,2) _ assms(5,3,4)]
  by (simp add: qmm_val_def qmm_t_val_def)


lemma upt_32: "[0..<32] = [0,1,2,3,4,5,6,7,8,9,10,11,12,13,14,15,16,17,18,19,20,21,22,23,24,25,26,27,28,29,30,31::nat]"
  by (simp add: upt_rec)

lemmas code_at_eval = code_at_def bytes_of_words_def le_bytes_def pack_vals_def get_pack_factor_def
      get_bytes_per_pack_def unpack_byte_def shift_mask_loop_def

theorem qmm_kernels_sum_witness:
  "qmm int 4 32 (replicate 32 7) [3] [0x76543210, 0xfedcba98, 0x01234567, 0x89abcdef] [2] [1]
       1 32 1 ! 5 = 33 \<and>
   qmm_t int 4 32 [7]
       [1, 2, 3, 4, 5, 6, 7, 8, 9, 10, 11, 12, 13, 14, 15, 16, 17, 18, 19, 20, 21, 22, 23, 24,
        25, 26, 27, 28, 29, 30, 31, 32]
       [0x76543210, 0xfedcba98, 0x01234567, 0x89abcdef] [2] [1] 1 1 32 ! 0 = 9472"
proof -
  have 1: "qmm int 4 32 (replicate 32 7) [3] [0x76543210, 0xfedcba98, 0x01234567, 0x89abcdef] [2] [1]
       1 32 1 ! 5 = 33"
    using qmm_kernels_sum[of 4 32 0 1 5 32 "replicate 32 7" int "[3]"
        "[0x76543210, 0xfedcba98, 0x01234567, 0x89abcdef]" "[2]" "[1]" 1]
    by (simp add: code_at_eval upt_rec)
  have 2: "qmm_t int 4 32 [7]
       [1, 2, 3, 4, 5, 6, 7, 8, 9, 10, 11, 12, 13, 14, 15, 16, 17, 18, 19, 20, 21, 22, 23, 24,
        25, 26, 27, 28, 29, 30, 31, 32]
       [0x76543210, 0xfedcba98, 0x01234567, 0x89abcdef] [2] [1] 1 1 32 ! 0 = 9472"
    using qmm_kernels_sum[of 4 32 0 1 0 1 "[7]" int
        "[1, 2, 3, 4, 5, 6, 7, 8, 9, 10, 11, 12, 13, 14, 15, 16, 17, 18, 19, 20, 21, 22, 23, 24,
          25, 26, 27, 28, 29, 30, 31, 32]"
        "[0x76543210, 0xfedcba98, 0x01234567, 0x89abcdef]" "[2]" "[1]" 32]
    by (simp add: code_at_eval upt_32 upt_rec)
  show ?thesis using 1 2 by simp
qed

lemma qmm_ignores_initial:
  assumes "bits \<in> {2, 3, 4, 5, 6, 8}" "gs \<in> {32, 64, 128}" "gs dvd N"
    and "length result1 = M * N" "length result2 = M * N"
  shows "qmm cast bits gs result1 x w scales biases M N K =
         qmm cast bits gs result2 x w scales biases M N K"
  using assms(4,5) by (simp add: qmm_eq[OF assms(1-3)] fold_store_all_map)

lemma qmm_t_ignores_initial:
  assumes "bits \<in> {2, 3, 4, 5, 6, 8}" "gs \<in> {32, 64, 128}" "gs dvd K"
    and "length result1 = M * N" "length result2 = M * N"
  shows "qmm_t cast bits gs result1 x w scales biases M N K =
         qmm_t cast bits gs result2 x w scales biases M N K"
  using assms(4,5) by (simp add: qmm_t_eq[OF assms(1-3)] fold_store_all_map)

lemma qmm_t_simd_ignores_initial:
  assumes "length result1 = M * N" "length result2 = M * N"
  shows "map_sum fst id (qmm_t_simd T bits gs S result1 x w scales biases M N K) =
         map_sum fst id (qmm_t_simd T bits gs S result2 x w scales biases M N K)"
proof (cases "simd_vals T bits gs S x w scales biases M N K")
  case (Pair vs st)
  show ?thesis
  proof (cases st)
    case (Inl e)
    then show ?thesis using Pair by (simp add: qmm_t_simd_shape)
  next
    case (Inr xb)
    then have "length vs = M * N" using simd_vals_length Pair by blast
    then show ?thesis using Pair Inr assms by (simp add: qmm_t_simd_shape store_vals_all)
  qed
qed

lemma qmm_t_simd_ok:
  assumes "(bits = 4 \<or> bits = 8) \<and> S = 8"
  shows "\<exists>vs. length vs = M * N \<and>
     (\<forall>result. qmm_t_simd T bits gs S result x w scales biases M N K = Inr (store_vals 0 vs result))"
proof -
  obtain vs xb where "simd_vals T bits gs S x w scales biases M N K = (vs, Inr xb)" "length vs = M * N"
    using simd_vals_ok[OF assms] by blast
  then show ?thesis by (auto simp: qmm_t_simd_shape)
qed

text \<open>
  Claim C10.  Each matmul kernel determines the output from its inputs alone:
  two runs on output buffers of \<open>M * N\<close> elements with different initial
  contents and otherwise the same arguments give the same output.  For
  \<^verbatim>\<open>_qmm\<close> and \<^verbatim>\<open>_qmm_t\<close> the grouped dimension is a multiple of the
  group size.  \<^verbatim>\<open>_qmm_t_simd\<close> throws in both runs the same exception
  or returns in both runs the same output, and it returns for the two
  combinations of bit width and vector width that \<^verbatim>\<open>extract_bits_simd\<close>
  supports.
\<close>

theorem kernels_ignore_initial_output:
  fixes cast :: "nat \<Rightarrow> 'a::{zero,plus,times}"
    and T :: "('a, 'f::{zero,plus,times}) elem_type"
  assumes "bits \<in> {2, 3, 4, 5, 6, 8}" and "group_size \<in> {32, 64, 128}"
    and "length result1 = M * N" and "length result2 = M * N"
  shows "(group_size dvd N \<longrightarrow>
            qmm cast bits group_size result1 x w scales biases M N K =
            qmm cast bits group_size result2 x w scales biases M N K) \<and>
         (group_size dvd K \<longrightarrow>
            qmm_t cast bits group_size result1 x w scales biases M N K =
            qmm_t cast bits group_size result2 x w scales biases M N K) \<and>
         map_sum fst id (qmm_t_simd T bits group_size S result1 x w scales biases M N K) =
         map_sum fst id (qmm_t_simd T bits group_size S result2 x w scales biases M N K) \<and>
         ((bits = 4 \<or> bits = 8) \<and> S = 8 \<longrightarrow>
            (\<exists>out. qmm_t_simd T bits group_size S result1 x w scales biases M N K = Inr out \<and>
                   qmm_t_simd T bits group_size S result2 x w scales biases M N K = Inr out))"
proof -
  have "\<exists>out. qmm_t_simd T bits group_size S result1 x w scales biases M N K = Inr out \<and>
              qmm_t_simd T bits group_size S result2 x w scales biases M N K = Inr out"
    if supported: "(bits = 4 \<or> bits = 8) \<and> S = 8"
  proof -
    obtain vs where "length vs = M * N"
      "\<forall>result. qmm_t_simd T bits group_size S result x w scales biases M N K = Inr (store_vals 0 vs result)"
      using qmm_t_simd_ok[OF supported] by blast
    then show ?thesis using assms(3,4) by (simp add: store_vals_all)
  qed
  moreover have "group_size dvd N \<longrightarrow>
            qmm cast bits group_size result1 x w scales biases M N K =
            qmm cast bits group_size result2 x w scales biases M N K"
    using qmm_ignores_initial[OF assms(1,2) _ assms(3,4)] by simp
  moreover have "group_size dvd K \<longrightarrow>
            qmm_t cast bits group_size result1 x w scales biases M N K =
            qmm_t cast bits group_size result2 x w scales biases M N K"
    using qmm_t_ignores_initial[OF assms(1,2) _ assms(3,4)] by simp
  moreover note qmm_t_simd_ignores_initial[OF assms(3,4), of T bits group_size S x w scales biases K]
  ultimately show ?thesis by (intro conjI impI) simp_all
qed

theorem kernels_ignore_initial_output_witness:
  "qmm int 4 32 (replicate 32 7) (replicate 32 1) (replicate 128 0x76543210) [2] [1] 1 32 32 =
   qmm int 4 32 (replicate 32 0) (replicate 32 1) (replicate 128 0x76543210) [2] [1] 1 32 32 \<and>
   qmm_t int 4 32 (replicate 32 7) (replicate 32 1) (replicate 128 0x76543210) [2] [1] 1 32 32 =
   qmm_t int 4 32 (replicate 32 0) (replicate 32 1) (replicate 128 0x76543210) [2] [1] 1 32 32 \<and>
   (\<exists>out. qmm_t_simd \<lparr>widen = id, narrow = id, of_u32 = (\<lambda>v. int (unat v)), simd_sum = sum_list,
                static_cast = int, max_size = 8\<rparr> 4 32 8
             (replicate 32 7) (replicate 32 1) (replicate 128 0x76543210) [2] [1] 1 32 32 = Inr out \<and>
           qmm_t_simd \<lparr>widen = id, narrow = id, of_u32 = (\<lambda>v. int (unat v)), simd_sum = sum_list,
                static_cast = int, max_size = 8\<rparr> 4 32 8
             (replicate 32 0) (replicate 32 1) (replicate 128 0x76543210) [2] [1] 1 32 32 = Inr out)"
proof -
  have h: "(4::nat) \<in> {2, 3, 4, 5, 6, 8}" "(32::nat) \<in> {32, 64, 128}"
    by simp_all
  have l: "length (replicate 32 (7::int)) = 1 * 32" "length (replicate 32 (0::int)) = 1 * 32"
    by simp_all
  have d: "(32::nat) dvd 32" and s: "((4::nat) = 4 \<or> (4::nat) = 8) \<and> (8::nat) = 8"
    by simp_all
  note t = kernels_ignore_initial_output[OF h l, of int "replicate 32 1" "replicate 128 0x76543210"
      "[2]" "[1]" 32
      "\<lparr>widen = id, narrow = id, of_u32 = (\<lambda>v. int (unat v)), simd_sum = sum_list,
                static_cast = int, max_size = 8\<rparr>" 8]
  show ?thesis
    using t d s by blast
qed

section \<open>Properties of the dispatch layer\<close>

lemma qmm_dispatch_group_valid:
  "gs \<in> {32, 64, 128} \<Longrightarrow>
   qmm_dispatch_group T bits result x w scales biases M N K gs tr =
   qmm_dispatch_transpose T bits (nat gs) result x w scales biases M N K tr"
  by (auto simp: qmm_dispatch_group_def)

lemma qmm_dispatch_typed_ptr_valid:
  "bits \<in> {2, 3, 4, 5, 6, 8} \<Longrightarrow> gs \<in> {32, 64, 128} \<Longrightarrow>
   qmm_dispatch_typed_ptr T result x w scales biases M N K gs bits tr =
   qmm_dispatch_transpose T (nat bits) (nat gs) result x w scales biases M N K tr"
  by (auto simp: qmm_dispatch_typed_ptr_def qmm_dispatch_group_valid)

lemma qmm_dispatch_group_invalid:
  "gs \<notin> {32, 64, 128} \<Longrightarrow>
   qmm_dispatch_group T bits result x w scales biases M N K gs tr =
   ([], Inl (Invalid_argument ''Quantization group size must be 32, 64 or 128.'', result))"
  by (auto simp: qmm_dispatch_group_def)

lemma qmm_dispatch_typed_ptr_invalid:
  assumes "bits \<notin> {2, 3, 4, 5, 6, 8} \<or> gs \<notin> {32, 64, 128}"
  shows "\<exists>msg. qmm_dispatch_typed_ptr T result x w scales biases M N K gs bits tr =
     ([], Inl (Invalid_argument msg, result))"
proof (cases "bits \<in> {2, 3, 4, 5, 6, 8}")
  case True
  then have "gs \<notin> {32, 64, 128}" using assms by blast
  then show ?thesis using True
    by (auto simp: qmm_dispatch_typed_ptr_def qmm_dispatch_group_invalid)
next
  case False
  then show ?thesis by (auto simp: qmm_dispatch_typed_ptr_def)
qed

lemma qmm_dispatch_transpose_ok:
  assumes "tr \<and> 32 mod bits = 0 \<and> max_size T mod (32 div bits) = 0 \<longrightarrow>
     (bits = 4 \<or> bits = 8) \<and> max_size T = 8"
  shows "\<exists>c v. qmm_dispatch_transpose T bits gs result x w scales biases M N K tr = ([c], Inr v) \<and>
     c \<in> {Call_qmm bits gs, Call_qmm_t bits gs, Call_qmm_t_simd bits gs}"
proof (cases "tr \<and> 32 mod bits = 0 \<and> max_size T mod (32 div bits) = 0")
  case True
  then have "(bits = 4 \<or> bits = 8) \<and> max_size T = 8"
    using assms by simp
  from qmm_t_simd_ok[OF this, of M N T gs x w scales biases K]
  show ?thesis using True by (auto simp: qmm_dispatch_transpose_def)
next
  case False
  then show ?thesis by (auto simp: qmm_dispatch_transpose_def)
qed

text \<open>The batch loops\<close>

lemma at_offset_Inr:
  "f (drop off out) = (calls, Inr v) \<Longrightarrow> at_offset off out f = (calls, Inr (take off out @ v))"
  by (simp add: at_offset_def)

lemma at_offset_Inl:
  "f (drop off out) = (calls, Inl (e, v)) \<Longrightarrow> at_offset off out f = (calls, Inl (e, take off out @ v))"
  by (simp add: at_offset_def)

lemma batches_ok:
  assumes "\<And>i out. \<exists>c v. F i out = ([c], Inr v) \<and> c \<in> A"
  shows "\<exists>calls out'. fold (\<lambda>i. next_batch (F i)) [0..<B] ([], Inr out0) = (calls, Inr out') \<and>
     length calls = B \<and> set calls \<subseteq> A"
proof (induction B)
  case 0
  then show ?case by simp
next
  case (Suc B)
  then obtain calls out' where ih: "fold (\<lambda>i. next_batch (F i)) [0..<B] ([], Inr out0) = (calls, Inr out')"
    "length calls = B" "set calls \<subseteq> A" by blast
  obtain c v where cv: "F B out' = ([c], Inr v)" "c \<in> A" using assms by blast
  have "fold (\<lambda>i. next_batch (F i)) [0..<Suc B] ([], Inr out0) = next_batch (F B) (calls, Inr out')"
    using ih(1) by simp
  also have "\<dots> = (calls @ [c], Inr v)" by (simp add: next_batch_def cv)
  finally show ?case using ih(2,3) cv(2) by simp
qed

lemma next_batch_Inl [simp]: "next_batch f (calls, Inl e) = (calls, Inl e)"
  by (simp add: next_batch_def)

lemma batches_thrown:
  "fold (\<lambda>i. next_batch (F i)) is (calls, Inl e) = (calls, Inl e)"
  by (induction "is") simp_all

lemma batches_invalid:
  assumes "\<And>i out. \<exists>msg. F i out = ([], Inl (Invalid_argument msg, out))"
  shows "fold (\<lambda>i. next_batch (F i)) [0..<B] ([], Inr out0) =
     (if B = 0 then ([], Inr out0) else F 0 out0)"
proof (cases B)
  case 0
  then show ?thesis by simp
next
  case (Suc n)
  obtain msg where m: "F 0 out0 = ([], Inl (Invalid_argument msg, out0))" using assms by blast
  have "[0..<B] = 0 # [1..<B]" using Suc by (simp add: upt_rec)
  then show ?thesis using Suc m by (simp add: next_batch_def batches_thrown)
qed

lemma at_offset_invalid:
  assumes "\<exists>msg. f (drop off out) = ([], Inl (Invalid_argument msg, drop off out))"
  shows "\<exists>msg. at_offset off out f = ([], Inl (Invalid_argument msg, out))"
  using assms by (auto simp: at_offset_def)

lemma at_offset_ok:
  assumes "\<exists>c v. f (drop off out) = ([c], Inr v) \<and> c \<in> A"
  shows "\<exists>c v. at_offset off out f = ([c], Inr v) \<and> c \<in> A"
  using assms by (auto simp: at_offset_def)

lemma ensure_row_contiguous_meta [simp]:
  "shape (ensure_row_contiguous c a) = shape a"
  "dtype (ensure_row_contiguous c a) = dtype a"
  "ndim (ensure_row_contiguous c a) = ndim a"
  "size_arr (ensure_row_contiguous c a) = size_arr a"
  "shape_at (ensure_row_contiguous c a) d = shape_at a d"
  by (simp_all add: ensure_row_contiguous_def ndim_def size_arr_def shape_at_def)

lemma ensure_row_contiguous_last_dims_meta [simp]:
  "shape (ensure_row_contiguous_last_dims c a) = shape a"
  "dtype (ensure_row_contiguous_last_dims c a) = dtype a"
  "ndim (ensure_row_contiguous_last_dims c a) = ndim a"
  "size_arr (ensure_row_contiguous_last_dims c a) = size_arr a"
  "shape_at (ensure_row_contiguous_last_dims c a) d = shape_at a d"
  by (simp_all add: ensure_row_contiguous_last_dims_def ndim_def size_arr_def shape_at_def Let_def)

text \<open>
  In the lemmas on the array overloads, \<open>g\<close> is the argument in the place of
  the parameter \<^verbatim>\<open>bits\<close> and \<open>b\<close> the one in the place of the parameter
  \<^verbatim>\<open>group_size\<close>: they reach the overload on pointers as its
  \<^verbatim>\<open>group_size\<close> and its \<^verbatim>\<open>bits\<close>.
\<close>

lemma qmm_dispatch_typed_invalid:
  assumes "b \<notin> {2, 3, 4, 5, 6, 8} \<or> g \<notin> {32, 64, 128}"
  shows "\<exists>msg. qmm_dispatch_typed T e out x w scales biases g b tr =
     (if size_arr x div (shape_at x (-1) * (if ndim x > 1 then shape_at x (-2) else 1)) = 0
      then ([], Inr (data out)) else ([], Inl (Invalid_argument msg, data out)))"
proof -
  define K where "K = shape_at x (-1)"
  define M where "M = (if ndim x > 1 then shape_at x (-2) else 1)"
  define N where "N = shape_at out (-1)"
  define w_els where "w_els = (if ndim w > 2 then shape_at w (-1) * shape_at w (-2) else 0)"
  define g_els where "g_els = (if ndim w > 2 then shape_at scales (-1) * shape_at scales (-2) else 0)"
  define F where "F = (\<lambda>i out_data.
     at_offset (i * M * N) out_data (\<lambda>result.
       qmm_dispatch_typed_ptr T result
         (drop (e (i * M * K) (shape x) (strides x)) (data x))
         (drop (e (i * w_els) (shape w) (strides w)) (data w))
         (drop (e (i * g_els) (shape scales) (strides scales)) (data scales))
         (drop (e (i * g_els) (shape biases) (strides biases)) (data biases))
         M N K g b tr))"
  have run: "qmm_dispatch_typed T e out x w scales biases g b tr =
     fold (\<lambda>i. next_batch (F i)) [0..<size_arr x div (K * M)] ([], Inr (data out))"
    unfolding qmm_dispatch_typed_def F_def K_def M_def N_def w_els_def g_els_def Let_def ..
  have inv: "\<exists>msg. F i od = ([], Inl (Invalid_argument msg, od))" for i od
    unfolding F_def by (rule at_offset_invalid) (rule qmm_dispatch_typed_ptr_invalid[OF assms])
  then obtain msg where "F 0 (data out) = ([], Inl (Invalid_argument msg, data out))" by blast
  then show ?thesis
    unfolding run batches_invalid[of F, OF inv] K_def[symmetric] M_def[symmetric] by auto
qed

lemma qmm_dispatch_invalid:
  assumes "b \<notin> {2, 3, 4, 5, 6, 8} \<or> g \<notin> {32, 64, 128}"
  shows "\<exists>msg. qmm_dispatch types e out x w scales biases g b tr =
     (if dtype x \<in> {float32, float16, bfloat16} \<and>
         size_arr x div (shape_at x (-1) * (if ndim x > 1 then shape_at x (-2) else 1)) = 0
      then ([], Inr (data out)) else ([], Inl (Invalid_argument msg, data out)))"
proof (cases "dtype x \<in> {float32, float16, bfloat16}")
  case True
  then show ?thesis
    using qmm_dispatch_typed_invalid[OF assms, of "types (dtype x)" e out x w scales biases tr]
    by (auto simp: qmm_dispatch_def)
next
  case False
  then show ?thesis by (cases "dtype x") (auto simp: qmm_dispatch_def)
qed

lemma qmm_dispatch_typed_ptr_ok:
  assumes "b \<in> {2, 3, 4, 5, 6, 8}" "g \<in> {32, 64, 128}"
    and "tr \<and> 32 mod nat b = 0 \<and> max_size T mod (32 div nat b) = 0 \<longrightarrow>
       (b = 4 \<or> b = 8) \<and> max_size T = 8"
  shows "\<exists>c v. qmm_dispatch_typed_ptr T result x w scales biases M N K g b tr = ([c], Inr v) \<and>
     c \<in> {Call_qmm (nat b) (nat g), Call_qmm_t (nat b) (nat g), Call_qmm_t_simd (nat b) (nat g)}"
proof -
  have "tr \<and> 32 mod nat b = 0 \<and> max_size T mod (32 div nat b) = 0 \<longrightarrow>
       (nat b = 4 \<or> nat b = 8) \<and> max_size T = 8"
    using assms(3) by auto
  from qmm_dispatch_transpose_ok[OF this] show ?thesis
    unfolding qmm_dispatch_typed_ptr_valid[OF assms(1,2)] .
qed

lemma qmm_dispatch_typed_ok:
  assumes "b \<in> {2, 3, 4, 5, 6, 8}" "g \<in> {32, 64, 128}"
    and "tr \<and> 32 mod nat b = 0 \<and> max_size T mod (32 div nat b) = 0 \<longrightarrow>
       (b = 4 \<or> b = 8) \<and> max_size T = 8"
  shows "\<exists>calls out'. qmm_dispatch_typed T e out x w scales biases g b tr = (calls, Inr out') \<and>
     length calls = size_arr x div (shape_at x (-1) * (if ndim x > 1 then shape_at x (-2) else 1)) \<and>
     set calls \<subseteq> {Call_qmm (nat b) (nat g), Call_qmm_t (nat b) (nat g), Call_qmm_t_simd (nat b) (nat g)}"
  unfolding qmm_dispatch_typed_def Let_def
  by (rule batches_ok) (rule at_offset_ok, rule qmm_dispatch_typed_ptr_ok[OF assms])

lemma bs_qmm_dispatch_typed_ok:
  assumes "b \<in> {2, 3, 4, 5, 6, 8}" "g \<in> {32, 64, 128}"
    and "tr \<and> 32 mod nat b = 0 \<and> max_size T mod (32 div nat b) = 0 \<longrightarrow>
       (b = 4 \<or> b = 8) \<and> max_size T = 8"
  shows "\<exists>calls out'. bs_qmm_dispatch_typed T e out x w scales biases lhs rhs g b tr = (calls, Inr out') \<and>
     length calls = size_arr lhs \<and>
     set calls \<subseteq> {Call_qmm (nat b) (nat g), Call_qmm_t (nat b) (nat g), Call_qmm_t_simd (nat b) (nat g)}"
  unfolding bs_qmm_dispatch_typed_def Let_def
  by (rule batches_ok) (rule at_offset_ok, rule qmm_dispatch_typed_ptr_ok[OF assms])

lemma qmm_dispatch_float:
  "dtype x \<in> {float32, float16, bfloat16} \<Longrightarrow>
   qmm_dispatch types e out x w scales biases g b tr =
   qmm_dispatch_typed (types (dtype x)) e out x w scales biases g b tr"
  by (auto simp: qmm_dispatch_def)

lemma bs_qmm_dispatch_float:
  "dtype x \<in> {float32, float16, bfloat16} \<Longrightarrow>
   bs_qmm_dispatch types e out x w scales biases lhs rhs g b tr =
   bs_qmm_dispatch_typed (types (dtype x)) e out x w scales biases lhs rhs g b tr"
  by (auto simp: bs_qmm_dispatch_def)

text \<open>
  Claim C8.  \<^verbatim>\<open>_qmm_dispatch_transpose\<close> calls \<^verbatim>\<open>_qmm_t_simd\<close> if and only if the
  weights are transposed, \<open>32 mod bits = 0\<close> and the SIMD width of the element
  type is a multiple of \<open>32 div bits\<close>; in every other transposed case it
  calls \<^verbatim>\<open>_qmm_t\<close>, and with weights that are not transposed it calls
  \<^verbatim>\<open>_qmm\<close>.  The call made is the only one, and its outcome is the outcome
  of the dispatch.
\<close>

theorem dispatch_transpose_selects:
  "(fst (qmm_dispatch_transpose T bits gs result x w scales biases M N K transposed_w)
      = [Call_qmm_t_simd bits gs]) =
     (transposed_w \<and> 32 mod bits = 0 \<and> max_size T mod (32 div bits) = 0) \<and>
   qmm_dispatch_transpose T bits gs result x w scales biases M N K transposed_w =
     (if transposed_w \<and> 32 mod bits = 0 \<and> max_size T mod (32 div bits) = 0 then
        ([Call_qmm_t_simd bits gs],
         qmm_t_simd T bits gs (max_size T) result x w scales biases M N K)
      else if transposed_w then
        ([Call_qmm_t bits gs], Inr (qmm_t (static_cast T) bits gs result x w scales biases M N K))
      else
        ([Call_qmm bits gs], Inr (qmm (static_cast T) bits gs result x w scales biases M N K)))"
  by (simp add: qmm_dispatch_transpose_def)






lemma store_vals_prefix:
  assumes "length vs \<le> length result"
  shows "store_vals 0 vs result = vs @ drop (length vs) result"
proof (rule nth_equalityI)
  show "length (store_vals 0 vs result) = length (vs @ drop (length vs) result)"
    using assms by simp
next
  fix i assume "i < length (store_vals 0 vs result)"
  then have i: "i < length result" by simp
  show "store_vals 0 vs result ! i = (vs @ drop (length vs) result) ! i"
  proof (cases "i < length vs")
    case True
    then show ?thesis
      using store_vals_nth[of i vs 0 result] assms by (simp add: nth_append)
  next
    case False
    then show ?thesis
      using store_vals_other[of i 0 vs result] i by (simp add: nth_append)
  qed
qed

text \<open>
  What the selected kernel stores does not depend on the output buffer: the
  values for the \<open>M * N\<close> elements, behind which the buffer is left as it was.
\<close>

lemma qmm_dispatch_transpose_stores:
  assumes "bits \<in> {2, 3, 4, 5, 6, 8}" "gs \<in> {32, 64, 128}"
    and "tr \<and> 32 mod bits = 0 \<and> max_size T mod (32 div bits) = 0 \<longrightarrow>
       (bits = 4 \<or> bits = 8) \<and> max_size T = 8"
    and "if tr then gs dvd K else gs dvd N"
  shows "\<exists>vs. length vs = M * N \<and>
     (\<forall>result. M * N \<le> length result \<longrightarrow>
        (\<exists>c. qmm_dispatch_transpose T bits gs result x w scales biases M N K tr =
           ([c], Inr (vs @ drop (M * N) result))))"
proof -
  consider (simd) "tr" "32 mod bits = 0 \<and> max_size T mod (32 div bits) = 0"
    | (scalar_t) "tr" "\<not> (32 mod bits = 0 \<and> max_size T mod (32 div bits) = 0)"
    | (plain) "\<not> tr" by blast
  then show ?thesis
  proof cases
    case simd
    then have "(bits = 4 \<or> bits = 8) \<and> max_size T = 8" using assms(3) by simp
    from qmm_t_simd_ok[OF this, of M N T gs x w scales biases K]
    obtain vs where vs: "length vs = M * N"
      "\<And>result. qmm_t_simd T bits gs (max_size T) result x w scales biases M N K =
         Inr (store_vals 0 vs result)" by blast
    show ?thesis
      using simd vs(1) by (intro exI[of _ vs]) (simp add: qmm_dispatch_transpose_def vs store_vals_prefix)
  next
    case scalar_t
    then have d: "gs dvd K" using assms(4) by simp
    let ?vs = "map (\<lambda>t. qmm_t_val (static_cast T) bits gs x (bytes_of_words w) scales biases K
        (t div N) (t mod N)) [0..<M * N]"
    have sel: "qmm_dispatch_transpose T bits gs result x w scales biases M N K tr =
        ([Call_qmm_t bits gs], Inr (qmm_t (static_cast T) bits gs result x w scales biases M N K))"
      for result
      using scalar_t by (auto simp: qmm_dispatch_transpose_def)
    show ?thesis
      by (intro exI[of _ ?vs])
        (simp add: sel qmm_t_eq[OF assms(1,2) d] fold_store_all_store_vals store_vals_prefix)
  next
    case plain
    then have d: "gs dvd N" using assms(4) by simp
    let ?vs = "map (\<lambda>t. qmm_val (static_cast T) bits gs x (bytes_of_words w) scales biases N K
        (t div N) (t mod N)) [0..<M * N]"
    show ?thesis
      using plain
      by (intro exI[of _ ?vs])
        (simp add: qmm_dispatch_transpose_def qmm_eq[OF assms(1,2) d] fold_store_all_store_vals
          store_vals_prefix)
  qed
qed

text \<open>The batch loop, when each batch stores \<open>c\<close> values at its offset\<close>

lemma batches_store:
  assumes F: "\<And>i view. c \<le> length view \<Longrightarrow> \<exists>calls. F i view = (calls, Inr (vs i @ drop c view))"
    and len: "\<And>i. length (vs i) = c"
    and B: "B * c \<le> length out0"
  shows "\<exists>calls. fold (\<lambda>i. next_batch (\<lambda>od. at_offset (i * c) od (F i))) [0..<B] ([], Inr out0) =
     (calls, Inr (concat (map vs [0..<B]) @ drop (B * c) out0))"
  using B
proof (induction B)
  case 0
  then show ?case by simp
next
  case (Suc B)
  let ?pre = "concat (map vs [0..<B])"
  have lp: "length ?pre = B * c"
    by (induction B) (simp_all add: len)
  from Suc obtain calls where ih:
    "fold (\<lambda>i. next_batch (\<lambda>od. at_offset (i * c) od (F i))) [0..<B] ([], Inr out0) =
     (calls, Inr (?pre @ drop (B * c) out0))" by auto
  have "c \<le> length (drop (B * c) out0)" using Suc.prems by simp
  from F[OF this, of B] obtain calls' where
    f: "F B (drop (B * c) out0) = (calls', Inr (vs B @ drop c (drop (B * c) out0)))" by blast
  have "at_offset (B * c) (?pre @ drop (B * c) out0) (F B) =
     (calls', Inr (?pre @ vs B @ drop c (drop (B * c) out0)))"
    by (simp add: at_offset_def lp f)
  then have "fold (\<lambda>i. next_batch (\<lambda>od. at_offset (i * c) od (F i))) [0..<Suc B] ([], Inr out0) =
     (calls @ calls', Inr (?pre @ vs B @ drop c (drop (B * c) out0)))"
    by (simp add: ih next_batch_def)
  then show ?case by (simp add: add.commute)
qed

lemma concat_slice:
  assumes "\<And>i. length (vs i) = c" "i < B"
  shows "take c (drop (i * c) (concat (map vs [0..<B]) @ rest)) = vs i"
  using assms(2)
proof (induction B arbitrary: rest)
  case 0
  then show ?case by simp
next
  case (Suc B)
  have lp: "length (concat (map vs [0..<B])) = B * c"
    by (induction B) (simp_all add: assms(1))
  show ?case
  proof (cases "i < B")
    case True
    from Suc.IH[OF True, of "vs B @ rest"] show ?thesis by simp
  next
    case False
    then have "i = B" using Suc.prems by simp
    then show ?thesis by (simp add: lp assms(1))
  qed
qed

lemma length_concat_batches:
  assumes "\<And>i. length (vs i) = c"
  shows "length (concat (map vs [0..<B])) = B * c"
  by (induction B) (simp_all add: assms)



section \<open>Properties of the quantizer\<close>

lemma rint_0 [simp]: "rint 0 = 0"
  by (simp add: rint_def)

lemma group_min_max_extrema:
  assumes "0 < gs"
  shows "group_min_max to_float w w_idx gs =
     (Fin (Min ((\<lambda>j. to_float (w ! (w_idx + j))) ` {0..<gs})),
      Fin (Max ((\<lambda>j. to_float (w ! (w_idx + j))) ` {0..<gs})))"
proof -
  obtain n where n: "gs = Suc n" using assms by (cases gs) simp_all
  have "group_min_max to_float w w_idx (Suc n) =
     (Fin (Min ((\<lambda>j. to_float (w ! (w_idx + j))) ` {0..<Suc n})),
      Fin (Max ((\<lambda>j. to_float (w ! (w_idx + j))) ` {0..<Suc n})))"
  proof (induction n)
    case 0
    then show ?case by (simp add: group_min_max_def)
  next
    case (Suc n)
    let ?f = "\<lambda>j. to_float (w ! (w_idx + j))"
    have set: "?f ` {0..<Suc (Suc n)} = insert (?f (Suc n)) (?f ` {0..<Suc n})"
      by (simp add: atLeast0_lessThan_Suc)
    have ne: "?f ` {0..<Suc n} \<noteq> {}" by simp
    have fin: "finite (?f ` {0..<Suc n})" by simp
    have mn: "Min (?f ` {0..<Suc (Suc n)}) = min (Min (?f ` {0..<Suc n})) (?f (Suc n))"
      unfolding set using Min_insert[OF fin ne] by (simp add: min.commute)
    have mx: "Max (?f ` {0..<Suc (Suc n)}) = max (Max (?f ` {0..<Suc n})) (?f (Suc n))"
      unfolding set using Max_insert[OF fin ne] by (simp add: max.commute)
    have "group_min_max to_float w w_idx (Suc (Suc n)) =
       (case group_min_max to_float w w_idx (Suc n) of
          (w_min, w_max) \<Rightarrow> (ext_min w_min (?f (Suc n)), ext_max w_max (?f (Suc n))))"
      by (simp add: group_min_max_def)
    then show ?case unfolding Suc.IH mn mx by simp
  qed
  then show ?thesis by (simp add: n)
qed

lemma group_values_set:
  assumes "w_idx + gs \<le> length w"
  shows "(\<lambda>j. to_float (w ! (w_idx + j))) ` {0..<gs} =
         set (map to_float (take gs (drop w_idx w)))"
proof -
  have "map to_float (take gs (drop w_idx w)) = map (\<lambda>j. to_float (w ! (w_idx + j))) [0..<gs]"
    using assms by (intro nth_equalityI) simp_all
  then show ?thesis by simp
qed

lemma quantize_group_params:
  assumes "0 < gs"
  shows "\<exists>out'. quantize_group to_float of_float w bits gs i (out, scales, biases) =
     Some (out',
       scales[i := of_float (fst (group_params (real (2 ^ bits - 1)) (1 / 10 ^ 7)
          (Min ((\<lambda>j. to_float (w ! (i * gs + j))) ` {0..<gs}))
          (Max ((\<lambda>j. to_float (w ! (i * gs + j))) ` {0..<gs}))))],
       biases[i := of_float (snd (group_params (real (2 ^ bits - 1)) (1 / 10 ^ 7)
          (Min ((\<lambda>j. to_float (w ! (i * gs + j))) ` {0..<gs}))
          (Max ((\<lambda>j. to_float (w ! (i * gs + j))) ` {0..<gs}))))])"
  by (simp add: quantize_group_def group_min_max_extrema[OF assms] Let_def split: prod.splits)

lemma quantize_groups:
  assumes "\<And>i st. \<exists>out'. G i (fst st, fst (snd st), snd (snd st)) =
      Some (out', (fst (snd st))[i := sc i], (snd (snd st))[i := bi i])"
  shows "\<exists>out'. fold (\<lambda>i st. Option.bind st (G i)) [0..<n] (Some (out, scales, biases)) =
     Some (out', fold (\<lambda>i s. s[i := sc i]) [0..<n] scales,
                 fold (\<lambda>i s. s[i := bi i]) [0..<n] biases)"
proof (induction n)
  case 0
  then show ?case by simp
next
  case (Suc n)
  then obtain out' where ih: "fold (\<lambda>i st. Option.bind st (G i)) [0..<n] (Some (out, scales, biases)) =
     Some (out', fold (\<lambda>i s. s[i := sc i]) [0..<n] scales,
                 fold (\<lambda>i s. s[i := bi i]) [0..<n] biases)" by blast
  from assms[of n "(out', fold (\<lambda>i s. s[i := sc i]) [0..<n] scales,
                 fold (\<lambda>i s. s[i := bi i]) [0..<n] biases)"]
  show ?case by (simp add: ih)
qed



lemma rint_near: "\<bar>rint y - y\<bar> \<le> 1 / 2"
proof -
  have "of_int \<lfloor>y\<rfloor> \<le> y" "y < of_int \<lfloor>y\<rfloor> + 1" by linarith+
  then show ?thesis by (auto simp: rint_def Let_def)
qed

lemma rint_nonzero: "rint y \<noteq> 0 \<Longrightarrow> y \<noteq> 0"
  by auto

lemma group_params_cases:
  assumes "group_params n_bins eps w_min w_max = (scale, bias)" and "0 < eps"
    and "edge = (if \<bar>w_min\<bar> > \<bar>w_max\<bar> then w_min else w_max)"
  shows "scale \<noteq> 0 \<and> (bias = edge \<or> bias = 0)"
proof -
  define s1 where "s1 = (if \<bar>w_min\<bar> > \<bar>w_max\<bar> then max ((w_max - w_min) / n_bins) eps
     else - max ((w_max - w_min) / n_bins) eps)"
  have s1: "s1 \<noteq> 0" using assms(2) by (auto simp: s1_def max_def)
  have gp: "group_params n_bins eps w_min w_max =
     (if rint (edge / s1) \<noteq> 0 then (edge / rint (edge / s1), edge) else (s1, 0))"
    by (simp add: group_params_def Let_def s1_def assms(3))
  show ?thesis
  proof (cases "rint (edge / s1) = 0")
    case True
    then show ?thesis using assms(1) s1 by (simp add: gp)
  next
    case False
    then have "edge / s1 \<noteq> 0" by (rule rint_nonzero)
    then have "edge \<noteq> 0" by simp
    then show ?thesis using assms(1) False by (auto simp: gp)
  qed
qed




end
